theory Spec2Isabelle
  imports Main "HOL-Library.Word"
begin

unbundle bit_operations_syntax

section \<open>runtime/paging.h\<close>

text \<open>
  The three macros and the two structs of \<^verbatim>\<open>paging.h\<close>. The fields \<^verbatim>\<open>index\<close>,
  \<^verbatim>\<open>type\<close>, \<^verbatim>\<open>begin\<close> and \<^verbatim>\<open>end\<close> of \<^verbatim>\<open>memory_page\<close> are written \<open>page_index\<close>,
  \<open>page_type\<close>, \<open>page_begin\<close> and \<open>page_end\<close>, since \<^verbatim>\<open>begin\<close> and \<^verbatim>\<open>end\<close> are
  reserved words here. Field widths are the declared ones: \<^verbatim>\<open>uint32_t\<close> is \<open>32 word\<close>,
  \<^verbatim>\<open>uint64_t\<close> is \<open>64 word\<close>.
\<close>

definition KM_ENABLE_PAGING :: "32 word" where
  "KM_ENABLE_PAGING = 0x02"

definition KM_MAX_PAGES :: nat where
  "KM_MAX_PAGES = 8"

definition TARGET_PAGE_SIZE :: nat where
  "TARGET_PAGE_SIZE = 2300000"

datatype memory_page_type = persistent | swap

record memory_page =
  page_index :: "32 word"
  page_type :: memory_page_type
  page_begin :: "32 word"
  page_end :: "32 word"
  offset_bytes :: "64 word"
  size_bytes :: "64 word"

record memory_page_table =
  num_pages :: "32 word"
  max_pages :: "32 word"
  body_buffer_size :: "64 word"

text \<open>
  \<^verbatim>\<open>sizeof(memory_page)\<close> and \<^verbatim>\<open>sizeof(memory_page_table)\<close>: four 32-bit fields and two
  64-bit fields, and two 32-bit fields and one 64-bit field, all naturally aligned.
\<close>

definition sizeof_memory_page :: nat where
  "sizeof_memory_page = 32"

definition sizeof_memory_page_table :: nat where
  "sizeof_memory_page_table = 16"

section \<open>Node headers\<close>

text \<open>
  \<^verbatim>\<open>node_opcode\<close> and \<^verbatim>\<open>node_header\<close> are declared in headers that are not part of the
  sources at hand. \<open>gencode\<close> names three opcodes in its \<^verbatim>\<open>switch\<close>; every other opcode
  is \<open>op_other k\<close>. A node header is built as
  \<^verbatim>\<open>node_header { body->opcode(), (uint32_t)body_size }\<close> and read as
  \<^verbatim>\<open>headers[i].body_size\<close>, so it has an opcode and a 32-bit \<open>body_size\<close>.
\<close>

datatype node_opcode = op_input_node | op_output_node | op_constant | op_other nat

record node_header =
  opcode :: node_opcode
  body_size :: "32 word"

datatype error =
  Emitter_not_found node_opcode
  | Index_out_of_range
  | Max_pages_exceeded

section \<open>The page planner: \<^verbatim>\<open>write_pages\<close>\<close>

text \<open>
  The body of the \<^verbatim>\<open>for\<close> loop (lines 94 to 109) at loop counter \<open>node\<close>, on the
  current page and the vector of committed pages. The sum
  \<^verbatim>\<open>headers[node].body_size + current.size_bytes\<close> is computed in \<^verbatim>\<open>uint64_t\<close>.
\<close>

definition loop_body ::
  "node_header list \<Rightarrow> 32 word \<Rightarrow> memory_page \<Rightarrow> memory_page list
     \<Rightarrow> memory_page \<times> memory_page list" where
  "loop_body headers node current pages =
     (if ucast (body_size (headers ! unat node)) + size_bytes current
           > (of_nat TARGET_PAGE_SIZE :: 64 word)
      then (\<lparr> page_index = page_index current + 1,
              page_type = swap,
              page_begin = node,
              page_end = node,
              offset_bytes = offset_bytes current + size_bytes current,
              size_bytes = ucast (body_size (headers ! unat node)) \<rparr>,
            pages @ [current])
      else (current \<lparr> page_end := node,
                      size_bytes := size_bytes current
                                      + ucast (body_size (headers ! unat node)) \<rparr>,
            pages))"

text \<open>
  The loop \<^verbatim>\<open>for(uint32_t node = 1; node < headers.size(); node ++)\<close>. The counter
  is 32 bits wide and wraps, so on a vector of \<open>2 ^ 32\<close> headers or more the loop never
  leaves: the result \<open>None\<close> stands for not returning.
\<close>

partial_function (option) write_pages_loop ::
  "node_header list \<Rightarrow> 32 word \<Rightarrow> memory_page \<Rightarrow> memory_page list
     \<Rightarrow> (memory_page \<times> memory_page list) option" where
  "write_pages_loop headers node current pages =
     (if unat node < length headers
      then (case loop_body headers node current pages of
              (current', pages') \<Rightarrow> write_pages_loop headers (node + 1) current' pages')
      else Some (current, pages))"

declare write_pages_loop.simps [code]

text \<open>
  Lines 80 to 113: the pages vector once the last page is committed. Reading
  \<^verbatim>\<open>headers[0]\<close> of an empty vector is out of bounds; the model returns
  \<open>Index_out_of_range\<close> there.
\<close>

definition collect_pages :: "node_header list \<Rightarrow> (error + memory_page list) option" where
  "collect_pages headers =
     (if 0 < length headers
      then (case write_pages_loop headers 1
                   \<lparr> page_index = 0, page_type = persistent, page_begin = 0, page_end = 0,
                     offset_bytes = 0, size_bytes = ucast (body_size (headers ! 0)) \<rparr> []
            of None \<Rightarrow> None
             | Some (current, pages) \<Rightarrow> Some (Inr (pages @ [current])))
      else Some (Inl Index_out_of_range))"

text \<open>Lines 117 to 126: the loop over the pages, on \<open>(working_size, largest_swap)\<close>.\<close>

definition working_size_of :: "memory_page list \<Rightarrow> 64 word" where
  "working_size_of pages =
     (case fold (\<lambda>page (working_size, largest_swap).
                    if page_type page = persistent
                    then (working_size + size_bytes page, largest_swap)
                    else (working_size, max largest_swap (size_bytes page)))
                pages (0, 0)
      of (working_size, largest_swap) \<Rightarrow> working_size + largest_swap)"

text \<open>Lines 128 to 132.\<close>

definition page_table_of :: "memory_page list \<Rightarrow> memory_page_table" where
  "page_table_of pages =
     \<lparr> num_pages = of_nat (length pages),
       max_pages = of_nat KM_MAX_PAGES,
       body_buffer_size = working_size_of pages \<rparr>"

text \<open>
  Lines 80 to 132: the pages and the table that \<^verbatim>\<open>write_pages\<close> goes on to write. The
  only guard on the number of pages is the \<^verbatim>\<open>assert\<close> of line 115. An \<^verbatim>\<open>assert\<close> is
  compiled out when the program is built with \<^verbatim>\<open>NDEBUG\<close> defined; \<open>ndebug\<close> is that
  build switch. With the assertion compiled in, a pages vector longer than
  \<^verbatim>\<open>KM_MAX_PAGES\<close> aborts the program; with it compiled out, lines 117 to 140 run on
  whatever the number of pages is.
\<close>

definition plan_pages ::
  "bool \<Rightarrow> node_header list \<Rightarrow> (error + memory_page_table \<times> memory_page list) option" where
  "plan_pages ndebug headers =
     (case collect_pages headers of
        None \<Rightarrow> None
      | Some (Inl e) \<Rightarrow> Some (Inl e)
      | Some (Inr pages) \<Rightarrow>
          if ndebug \<or> length pages \<le> KM_MAX_PAGES
          then Some (Inr (page_table_of pages, pages))
          else Some (Inl Max_pages_exceeded))"

section \<open>The binary writer\<close>

text \<open>
  What the serializer works on. A node carries its runtime opcode; \<open>node_id\<close> stands for
  everything else an emitter reads from it (connectors, attributes, constant data). A
  node body is what an emitter returns: its opcode and the bytes that
  \<^verbatim>\<open>body->serialize(writer)\<close> writes. The model header keeps the fields \<open>gencode\<close>
  computes; \<^verbatim>\<open>identifier\<close>, \<^verbatim>\<open>version\<close> and \<^verbatim>\<open>target\<close> are set to constants of a
  header that is not at hand and are left out. The counts and sizes are kept as the
  \<^verbatim>\<open>size_t\<close> values assigned.
\<close>

record node =
  runtime_opcode :: node_opcode
  node_id :: nat

record node_body =
  body_opcode :: node_opcode
  body_bytes :: "8 word list"

record model_header =
  flags :: "32 word"
  constants :: nat
  main_mem :: nat
  nodes :: nat
  inputs :: nat
  outputs :: nat

text \<open>
  The output stream is modelled by the writer's position and the record of every write:
  where it started, how many bytes it took and what was written. Input and output
  descriptors are recorded by the nodes they were taken from.
\<close>

datatype item =
  Model_header_item model_header
  | Input_ranges_item "node list"
  | Input_shapes_item "node list"
  | Output_ranges_item "node list"
  | Constants_item
  | Body_item node_body
  | Zero_padding_item
  | Node_headers_item "node_header list"
  | Page_table_item memory_page_table
  | Page_item memory_page

record extent =
  at :: nat
  len :: nat
  what :: item

record binary_writer =
  position :: nat
  written :: "extent list"

text \<open>
  Modelled from the spec: \<^verbatim>\<open>binary_writer::write\<close> and \<^verbatim>\<open>write_array\<close> are declared
  outside the sources at hand. Section 4.1 of the specification: \<^verbatim>\<open>write(T)\<close> writes a
  fixed-layout record verbatim, \<^verbatim>\<open>write_array\<close> a sequence of such records, at the
  current position, which moves past them. \<open>write_bytes n x\<close> is a write of the \<open>n\<close>
  bytes of \<open>x\<close>.
\<close>

definition write_bytes :: "nat \<Rightarrow> item \<Rightarrow> binary_writer \<Rightarrow> binary_writer" where
  "write_bytes n x w =
     \<lparr> position = position w + n,
       written = written w @ [\<lparr> at = position w, len = n, what = x \<rparr>] \<rparr>"

text \<open>
  Modelled from the spec: \<^verbatim>\<open>binary_writer::position(pos)\<close> is declared outside the
  sources at hand. Section 4.1 of the specification: it sets the current byte offset.
\<close>

definition set_position :: "nat \<Rightarrow> binary_writer \<Rightarrow> binary_writer" where
  "set_position pos w = w \<lparr> position := pos \<rparr>"

text \<open>
  Modelled from the spec: \<^verbatim>\<open>binary_writer::align_position\<close> is declared outside the
  sources at hand. Section 4.1 of the specification: it pads with zero bytes until the
  position is a multiple of \<open>n\<close>.
\<close>

definition align_position :: "nat \<Rightarrow> binary_writer \<Rightarrow> binary_writer" where
  "align_position n w =
     (let rem = position w mod n
      in if rem \<noteq> 0 then write_bytes (n - rem) Zero_padding_item w else w)"

text \<open>
  Modelled from the spec: \<^verbatim>\<open>node_body::serialize\<close> is declared outside the sources at
  hand. Section 3 of the specification: a node body is an opaque serialized byte blob with
  an opcode tag and a byte length. \<^verbatim>\<open>body->serialize(writer)\<close> writes the body's bytes
  at the current position.
\<close>

definition serialize :: "node_body \<Rightarrow> binary_writer \<Rightarrow> binary_writer" where
  "serialize body w = write_bytes (length (body_bytes body)) (Body_item body) w"

text \<open>
  The sizes of the structs declared outside the sources at hand are parameters of the
  model.
\<close>

record struct_sizes =
  sizeof_model_header :: nat
  sizeof_memory_range :: nat
  sizeof_runtime_shape_t :: nat
  sizeof_node_header :: nat

section \<open>The emitter registry\<close>

text \<open>
  The two global tables \<^verbatim>\<open>g_emitters\<close> and \<^verbatim>\<open>g_disabled_emitters\<close> are passed
  explicitly. An emitter reads the node and the context and returns a body or
  \<^verbatim>\<open>nullptr\<close>. The context an emitter sees holds the allocator totals; the writer that
  \<^verbatim>\<open>context.writer()\<close> returns is threaded through \<open>gencode\<close> as an argument of its own.
\<close>

record codegen_context =
  constant_usage :: nat
  memory_usage :: nat

type_synonym emitter_t = "node \<Rightarrow> codegen_context \<Rightarrow> node_body option"

record registry =
  g_emitters :: "node_opcode \<rightharpoonup> emitter_t"
  g_disabled_emitters :: "node_opcode set"

text \<open>\<^verbatim>\<open>unordered_map::emplace\<close> keeps an entry that is already there.\<close>

definition register_emitter :: "node_opcode \<Rightarrow> emitter_t \<Rightarrow> registry \<Rightarrow> registry" where
  "register_emitter opc emitter reg =
     (case g_emitters reg opc of
        None \<Rightarrow> reg \<lparr> g_emitters := (g_emitters reg)(opc \<mapsto> emitter) \<rparr>
      | Some _ \<Rightarrow> reg)"

definition disable_emitter :: "node_opcode \<Rightarrow> registry \<Rightarrow> registry" where
  "disable_emitter opc reg = reg \<lparr> g_disabled_emitters := insert opc (g_disabled_emitters reg) \<rparr>"

definition call_emitter :: "registry \<Rightarrow> node \<Rightarrow> codegen_context \<Rightarrow> error + node_body option" where
  "call_emitter reg node context =
     (let opc = runtime_opcode node
      in case g_emitters reg opc of
           None \<Rightarrow>
             if opc \<notin> g_disabled_emitters reg then Inl (Emitter_not_found opc)
             else Inr None
         | Some emitter \<Rightarrow> Inr (emitter node context))"

section \<open>Writing the page table\<close>

text \<open>
  \<^verbatim>\<open>write_pages\<close>, lines 79 to 142: the planning above, then the table and the pages,
  written at the writer's position. The argument \<^verbatim>\<open>nodes\<close> of the source is not used
  by it; \<open>ndebug\<close> is the build switch of the assertion.
\<close>

definition write_pages ::
  "bool \<Rightarrow> binary_writer \<Rightarrow> node_header list \<Rightarrow> node list
     \<Rightarrow> (error + binary_writer) option" where
  "write_pages ndebug writer headers runtime_nodes =
     (case plan_pages ndebug headers of
        None \<Rightarrow> None
      | Some (Inl e) \<Rightarrow> Some (Inl e)
      | Some (Inr (table, pages)) \<Rightarrow>
          Some (Inr (fold (\<lambda>page w. write_bytes sizeof_memory_page (Page_item page) w) pages
                       (write_bytes sizeof_memory_page_table (Page_table_item table) writer))))"

section \<open>The model serializer: \<^verbatim>\<open>gencode\<close>\<close>

text \<open>
  Modelled from the spec: \<^verbatim>\<open>KM_NODE_PAGING\<close>, the flag \<open>gencode\<close> sets and tests, is
  defined nowhere in the sources at hand. Section 6 of the specification gives the
  paging bit of the header flags as \<open>0x02\<close>, the value \<^verbatim>\<open>paging.h\<close> gives
  \<^verbatim>\<open>KM_ENABLE_PAGING\<close>.
\<close>

definition KM_NODE_PAGING :: "32 word" where
  "KM_NODE_PAGING = 0x02"

text \<open>Lines 146 to 170: the runtime nodes, the inputs, the outputs and the constants.\<close>

definition runtime_nodes_of :: "registry \<Rightarrow> node list \<Rightarrow> node list" where
  "runtime_nodes_of reg compute_sequence =
     filter (\<lambda>node. runtime_opcode node \<notin> g_disabled_emitters reg) compute_sequence"

definition inputs_of :: "node list \<Rightarrow> node list" where
  "inputs_of compute_sequence =
     filter (\<lambda>node. runtime_opcode node = op_input_node) compute_sequence"

definition outputs_of :: "node list \<Rightarrow> node list" where
  "outputs_of compute_sequence =
     filter (\<lambda>node. runtime_opcode node = op_output_node) compute_sequence"

definition constants_of :: "node list \<Rightarrow> node list" where
  "constants_of compute_sequence =
     filter (\<lambda>node. runtime_opcode node = op_constant) compute_sequence"

text \<open>Lines 172 to 189, with the local \<^verbatim>\<open>bool enable_paging = true\<close>.\<close>

definition make_model_header :: "registry \<Rightarrow> codegen_context \<Rightarrow> node list \<Rightarrow> model_header" where
  "make_model_header reg context compute_sequence =
     (let enable_paging = True;
          model_header = \<lparr> flags = 0,
                           constants = constant_usage context,
                           main_mem = memory_usage context,
                           nodes = length (runtime_nodes_of reg compute_sequence),
                           inputs = length (inputs_of compute_sequence),
                           outputs = length (outputs_of compute_sequence) \<rparr>
      in if enable_paging
         then model_header \<lparr> flags := flags model_header OR KM_NODE_PAGING \<rparr>
         else model_header)"

text \<open>
  Lines 191 to 210: the header, the three descriptor tables and the constant pool. The
  pool is written as one block of \<^verbatim>\<open>constant_usage()\<close> bytes; what the constants'
  data are and where the allocator put them is not modelled. The writer's position
  afterwards is \<^verbatim>\<open>node_headers_pos\<close>.
\<close>

definition write_prologue ::
  "struct_sizes \<Rightarrow> registry \<Rightarrow> codegen_context \<Rightarrow> binary_writer \<Rightarrow> node list
     \<Rightarrow> binary_writer" where
  "write_prologue sz reg context writer compute_sequence =
     (let ins = inputs_of compute_sequence;
          outs = outputs_of compute_sequence;
          w1 = write_bytes (sizeof_model_header sz)
                 (Model_header_item (make_model_header reg context compute_sequence)) writer;
          w2 = write_bytes (sizeof_memory_range sz * length ins) (Input_ranges_item ins) w1;
          w3 = write_bytes (sizeof_runtime_shape_t sz * length ins) (Input_shapes_item ins) w2;
          w4 = write_bytes (sizeof_memory_range sz * length outs) (Output_ranges_item outs) w3
      in write_bytes (constant_usage context) Constants_item w4)"

text \<open>Line 217: the bytes set aside for the page table.\<close>

definition page_bytes_of :: "32 word \<Rightarrow> nat" where
  "page_bytes_of model_flags =
     sizeof_memory_page * KM_MAX_PAGES
       * (if model_flags AND of_nat KM_MAX_PAGES \<noteq> 0 then 1 else 0)"

text \<open>
  Lines 222 to 233: the loop over the runtime nodes, on the writer and the vector of
  node headers. An exception of \<open>call_emitter\<close> leaves the loop and \<open>gencode\<close>.
\<close>

fun write_bodies ::
  "registry \<Rightarrow> codegen_context \<Rightarrow> node list \<Rightarrow> binary_writer \<Rightarrow> node_header list
     \<Rightarrow> error + binary_writer \<times> node_header list" where
  "write_bodies reg context [] writer node_headers = Inr (writer, node_headers)"
| "write_bodies reg context (node # rest) writer node_headers =
     (case call_emitter reg node context of
        Inl e \<Rightarrow> Inl e
      | Inr None \<Rightarrow> write_bodies reg context rest writer node_headers
      | Inr (Some body) \<Rightarrow>
          (let body_start = position writer;
               w1 = serialize body writer;
               w2 = align_position 8 w1;
               body_size = position w2 - body_start
           in write_bodies reg context rest w2
                (node_headers @ [\<lparr> opcode = body_opcode body, body_size = of_nat body_size \<rparr>])))"

text \<open>
  \<^verbatim>\<open>gencode\<close>, lines 144 to 248. The result is the writer at the end, \<open>Inl\<close> of the
  error where the run aborts, and \<open>None\<close> where \<^verbatim>\<open>write_pages\<close> does not return.
  \<open>ndebug\<close> is the build switch of the assertion in \<^verbatim>\<open>write_pages\<close>.
\<close>

definition gencode ::
  "bool \<Rightarrow> struct_sizes \<Rightarrow> registry \<Rightarrow> codegen_context \<Rightarrow> binary_writer \<Rightarrow> node list
     \<Rightarrow> (error + binary_writer) option" where
  "gencode ndebug sz reg context writer compute_sequence =
     (let runtime_nodes = runtime_nodes_of reg compute_sequence;
          model_header = make_model_header reg context compute_sequence;
          w = write_prologue sz reg context writer compute_sequence;
          node_headers_pos = position w;
          node_header_bytes = sizeof_node_header sz * length runtime_nodes;
          page_bytes = page_bytes_of (flags model_header);
          w = set_position (node_headers_pos + node_header_bytes + page_bytes) w
      in case write_bodies reg context runtime_nodes w [] of
           Inl e \<Rightarrow> Some (Inl e)
         | Inr (w, node_headers) \<Rightarrow>
             (let end_pos = position w;
                  w = set_position node_headers_pos w;
                  w = write_bytes (sizeof_node_header sz * length node_headers)
                        (Node_headers_item node_headers) w
              in if flags model_header AND KM_NODE_PAGING \<noteq> 0
                 then (case write_pages ndebug w node_headers runtime_nodes of
                         None \<Rightarrow> None
                       | Some (Inl e) \<Rightarrow> Some (Inl e)
                       | Some (Inr w) \<Rightarrow> Some (Inr (set_position end_pos w)))
                 else Some (Inr (set_position end_pos w))))"

section \<open>Properties of the planned pages\<close>

text \<open>
  \<open>bodies_size hs b e\<close> is the sum of the \<open>body_size\<close> of the headers at the indices
  \<open>b\<close> to \<open>e\<close>, both included. \<open>page_ok hs i p\<close> collects what holds of the page \<open>p\<close>
  at position \<open>i\<close> of the pages vector, and \<open>pages_inv hs n ps\<close> what holds of the
  pages \<open>ps\<close> once the headers before index \<open>n\<close> are placed.
\<close>

definition bodies_size :: "node_header list \<Rightarrow> nat \<Rightarrow> nat \<Rightarrow> nat" where
  "bodies_size hs b e = sum_list (map (\<lambda>h. unat (body_size h)) (take (Suc e - b) (drop b hs)))"

definition page_ok :: "node_header list \<Rightarrow> nat \<Rightarrow> memory_page \<Rightarrow> bool" where
  "page_ok hs i p \<longleftrightarrow>
     page_index p = of_nat i
     \<and> unat (page_begin p) \<le> unat (page_end p)
     \<and> unat (page_end p) < length hs
     \<and> page_type p = (if i = 0 then persistent else swap)
     \<and> unat (size_bytes p) = bodies_size hs (unat (page_begin p)) (unat (page_end p))
     \<and> unat (offset_bytes p) = sum_list (map (\<lambda>h. unat (body_size h)) (take (unat (page_begin p)) hs))
     \<and> (unat (page_begin p) < unat (page_end p) \<longrightarrow> unat (size_bytes p) \<le> TARGET_PAGE_SIZE)"

definition pages_inv :: "node_header list \<Rightarrow> nat \<Rightarrow> memory_page list \<Rightarrow> bool" where
  "pages_inv hs n ps \<longleftrightarrow>
     ps \<noteq> []
     \<and> (\<forall>i < length ps. page_ok hs i (ps ! i))
     \<and> unat (page_begin (ps ! 0)) = 0
     \<and> (\<forall>i. Suc i < length ps \<longrightarrow> Suc (unat (page_end (ps ! i))) = unat (page_begin (ps ! Suc i)))
     \<and> Suc (unat (page_end (last ps))) = n"

section \<open>Properties of the serialized output\<close>

text \<open>
  \<open>align_up n p\<close> is the position \<open>align_position n\<close> leaves a writer at that stood at
  \<open>p\<close>. \<open>emitted_bodies\<close> lists the bodies the emitters return for a sequence of nodes,
  in order. \<open>body_spans p bodies\<close> gives, for each body written one after the other from
  position \<open>p\<close>, the position it starts at and the position after its padding.
  \<open>body_and_padding\<close> is the record of one such body in the output and
  \<open>header_of_span\<close> its node header.
\<close>

definition align_up :: "nat \<Rightarrow> nat \<Rightarrow> nat" where
  "align_up n p = (if p mod n \<noteq> 0 then p + (n - p mod n) else p)"

fun emitted_bodies :: "registry \<Rightarrow> codegen_context \<Rightarrow> node list \<Rightarrow> node_body list" where
  "emitted_bodies reg context [] = []"
| "emitted_bodies reg context (node # rest) =
     (case call_emitter reg node context of
        Inr (Some body) \<Rightarrow> body # emitted_bodies reg context rest
      | _ \<Rightarrow> emitted_bodies reg context rest)"

fun body_spans :: "nat \<Rightarrow> node_body list \<Rightarrow> (nat \<times> nat) list" where
  "body_spans p [] = []"
| "body_spans p (b # bs) =
     (p, align_up 8 (p + length (body_bytes b)))
       # body_spans (align_up 8 (p + length (body_bytes b))) bs"

definition body_and_padding :: "node_body \<Rightarrow> nat \<times> nat \<Rightarrow> extent list" where
  "body_and_padding b se =
     (case se of (s, e) \<Rightarrow>
        \<lparr> at = s, len = length (body_bytes b), what = Body_item b \<rparr>
          # (if s + length (body_bytes b) < e
             then [\<lparr> at = s + length (body_bytes b), len = e - (s + length (body_bytes b)),
                     what = Zero_padding_item \<rparr>]
             else []))"

definition header_of_span :: "node_body \<Rightarrow> nat \<times> nat \<Rightarrow> node_header" where
  "header_of_span b se =
     (case se of (s, e) \<Rightarrow> \<lparr> opcode = body_opcode b, body_size = of_nat (e - s) \<rparr>)"

text \<open>
  The position \<open>gencode\<close> moves the writer to at line 219, where the first body starts,
  and the position the node headers are written back to.
\<close>

definition node_headers_pos_of ::
  "struct_sizes \<Rightarrow> registry \<Rightarrow> codegen_context \<Rightarrow> binary_writer \<Rightarrow> node list \<Rightarrow> nat" where
  "node_headers_pos_of sz reg context writer compute_sequence =
     position (write_prologue sz reg context writer compute_sequence)"

definition body_region_start ::
  "struct_sizes \<Rightarrow> registry \<Rightarrow> codegen_context \<Rightarrow> binary_writer \<Rightarrow> node list \<Rightarrow> nat" where
  "body_region_start sz reg context writer compute_sequence =
     node_headers_pos_of sz reg context writer compute_sequence
       + sizeof_node_header sz * length (runtime_nodes_of reg compute_sequence)
       + page_bytes_of (flags (make_model_header reg context compute_sequence))"

text \<open>The bodies and the node-header tables recorded in an output, in the order written.\<close>

fun bodies_of_log :: "extent list \<Rightarrow> node_body list" where
  "bodies_of_log [] = []"
| "bodies_of_log (e # es) =
     (case what e of Body_item b \<Rightarrow> b # bodies_of_log es | _ \<Rightarrow> bodies_of_log es)"

fun node_headers_of_log :: "extent list \<Rightarrow> node_header list list" where
  "node_headers_of_log [] = []"
| "node_headers_of_log (e # es) =
     (case what e of Node_headers_item hs \<Rightarrow> hs # node_headers_of_log es
      | _ \<Rightarrow> node_headers_of_log es)"

text \<open>
  A registry, a context and struct sizes used as concrete inputs below: one emitter, for
  opcode \<open>op_other 1\<close>, whose body has \<open>node_id\<close> zero bytes; a second opcode,
  \<open>op_other 2\<close>, whose emitter returns no body; the three marker opcodes and
  \<open>op_other 3\<close> disabled.
\<close>

definition example_sizes :: struct_sizes where
  "example_sizes =
     \<lparr> sizeof_model_header = 40, sizeof_memory_range = 16,
       sizeof_runtime_shape_t = 16, sizeof_node_header = 8 \<rparr>"

definition example_emitter :: emitter_t where
  "example_emitter node context =
     Some \<lparr> body_opcode = runtime_opcode node, body_bytes = replicate (node_id node) 0 \<rparr>"

definition null_emitter :: emitter_t where
  "null_emitter node context = None"

definition example_registry :: registry where
  "example_registry =
     \<lparr> g_emitters = [op_other 1 \<mapsto> example_emitter, op_other 2 \<mapsto> null_emitter],
       g_disabled_emitters = {op_input_node, op_output_node, op_constant, op_other 3} \<rparr>"

definition example_context :: codegen_context where
  "example_context = \<lparr> constant_usage = 0, memory_usage = 0 \<rparr>"

definition mk_node :: "node_opcode \<Rightarrow> nat \<Rightarrow> node" where
  "mk_node opc k = \<lparr> runtime_opcode = opc, node_id = k \<rparr>"

definition two_body_nodes :: "node list" where
  "two_body_nodes = [mk_node (op_other 1) 5, mk_node (op_other 1) 3]"

text \<open>Headers used as concrete inputs below.\<close>

definition hdr :: "nat \<Rightarrow> node_header" where
  "hdr n = \<lparr> opcode = op_other 0, body_size = of_nat n \<rparr>"

definition example_headers :: "node_header list" where
  "example_headers = [hdr 2000000, hdr 1000000, hdr 5, hdr 2299990]"

definition oversized_headers :: "node_header list" where
  "oversized_headers = [hdr 5000000, hdr 3, hdr 4]"

definition nine_headers :: "node_header list" where
  "nine_headers = replicate 9 (hdr 2000000)"

definition empty_writer :: binary_writer where
  "empty_writer = \<lparr> position = 0, written = [] \<rparr>"

section \<open>The planner's loop\<close>

lemma un32: "n < 2 ^ 32 \<Longrightarrow> unat (of_nat n :: 32 word) = n"
  by (simp add: unat_of_nat)

lemma unat_ucast_32_64: "unat (ucast (w :: 32 word) :: 64 word) = unat w"
proof -
  have "unat w < 2 ^ 32" using unsigned_less[of w] by simp
  then have "unat w < (2::nat) ^ 64" by simp
  then show ?thesis by (simp add: unsigned_ucast_eq take_bit_nat_eq_self)
qed

lemma bodies_size_single: "b < length hs \<Longrightarrow> bodies_size hs b b = unat (body_size (hs ! b))"
  by (simp add: bodies_size_def take_Suc_conv_app_nth Cons_nth_drop_Suc[symmetric] hd_drop_conv_nth take_Suc)

lemma bodies_size_Suc:
  "b \<le> Suc e \<Longrightarrow> Suc e < length hs \<Longrightarrow>
     bodies_size hs b (Suc e) = bodies_size hs b e + unat (body_size (hs ! Suc e))"
  by (simp add: bodies_size_def Suc_diff_le take_Suc_conv_app_nth)

lemma sum_bodies_bound:
  "sum_list (map (\<lambda>h. unat (body_size h)) (xs :: node_header list)) \<le> length xs * (2 ^ 32 - 1)"
proof (induction xs)
  case Nil show ?case by simp
next
  case (Cons h xs)
  have "unat (body_size h) < 2 ^ 32" using unsigned_less[of "body_size h"] by simp
  then show ?case using Cons by simp
qed

lemma sum_take_Suc:
  "n < length hs \<Longrightarrow> sum_list (map f (take (Suc n) hs)) = sum_list (map f (take n hs)) + f (hs ! n)"
  by (simp add: take_Suc_conv_app_nth)

lemma sum_take_split:
  "b \<le> Suc e \<Longrightarrow> sum_list (map f (take (Suc e) hs)) = sum_list (map f (take b hs)) + sum_list (map f (take (Suc e - b) (drop b hs)))"
proof -
  assume "b \<le> Suc e"
  then have "take (Suc e) hs = take b hs @ take (Suc e - b) (drop b hs)"
    by (metis le_add_diff_inverse take_add)
  then show ?thesis by simp
qed

lemma page_ok_size_lt:
  assumes "page_ok hs i p"
  shows "unat (size_bytes p) < 2 ^ 32"
proof (cases "unat (page_begin p) < unat (page_end p)")
  case True
  then have "unat (size_bytes p) \<le> TARGET_PAGE_SIZE" using assms by (simp add: page_ok_def)
  then show ?thesis by (simp add: TARGET_PAGE_SIZE_def)
next
  case False
  then have eq: "unat (page_begin p) = unat (page_end p)" and lt: "unat (page_end p) < length hs"
    using assms by (simp_all add: page_ok_def)
  have "unat (size_bytes p) = unat (body_size (hs ! unat (page_end p)))"
    using assms eq lt by (simp add: page_ok_def bodies_size_single)
  then show ?thesis using unsigned_less[of "body_size (hs ! unat (page_end p))"] by simp
qed

lemma page_ok_offset_size:
  assumes "page_ok hs i p"
  shows "unat (offset_bytes p) + unat (size_bytes p)
           = sum_list (map (\<lambda>h. unat (body_size h)) (take (Suc (unat (page_end p))) hs))"
  using assms sum_take_split[of "unat (page_begin p)" "unat (page_end p)" "\<lambda>h. unat (body_size h)" hs]
  by (simp add: page_ok_def bodies_size_def)

lemma page_ok_offset_add:
  assumes ok: "page_ok hs i p" and len: "length hs < 2 ^ 32"
  shows "unat (offset_bytes p + size_bytes p) = unat (offset_bytes p) + unat (size_bytes p)"
proof -
  let ?xs = "take (Suc (unat (page_end p))) hs"
  have "unat (offset_bytes p) + unat (size_bytes p) \<le> length ?xs * (2 ^ 32 - 1)"
    using page_ok_offset_size[OF ok] sum_bodies_bound[of ?xs] by simp
  also have "\<dots> \<le> (2 ^ 32 - 1) * (2 ^ 32 - 1)"
    using len by simp
  also have "\<dots> < (2::nat) ^ 64" by simp
  finally show ?thesis by (simp add: unat_add_lem[THEN iffD1])
qed

lemma pages_inv_snoc:
  assumes inv: "pages_inv hs n ps" and ok: "page_ok hs (length ps) q"
    and b: "unat (page_begin q) = n" and e: "Suc (unat (page_end q)) = m"
  shows "pages_inv hs m (ps @ [q])"
proof -
  have ne: "ps \<noteq> []" using inv by (simp add: pages_inv_def)
  have oks: "\<And>i. i < length ps \<Longrightarrow> page_ok hs i (ps ! i)"
    using inv by (simp add: pages_inv_def)
  have links: "\<And>i. Suc i < length ps \<Longrightarrow>
                 Suc (unat (page_end (ps ! i))) = unat (page_begin (ps ! Suc i))"
    using inv by (simp add: pages_inv_def)
  have lst: "Suc (unat (page_end (ps ! (length ps - 1)))) = n"
    using inv ne by (simp add: pages_inv_def last_conv_nth)
  have 1: "\<forall>i < length (ps @ [q]). page_ok hs i ((ps @ [q]) ! i)"
  proof (intro allI impI)
    fix i assume "i < length (ps @ [q])"
    then consider "i < length ps" | "i = length ps" by fastforce
    then show "page_ok hs i ((ps @ [q]) ! i)"
      by cases (simp_all add: nth_append oks ok)
  qed
  have 2: "unat (page_begin ((ps @ [q]) ! 0)) = 0"
    using inv ne by (simp add: pages_inv_def nth_append)
  have 3: "\<forall>i. Suc i < length (ps @ [q]) \<longrightarrow>
             Suc (unat (page_end ((ps @ [q]) ! i))) = unat (page_begin ((ps @ [q]) ! Suc i))"
  proof (intro allI impI)
    fix i assume "Suc i < length (ps @ [q])"
    then consider "Suc i < length ps" | "Suc i = length ps" by fastforce
    then show "Suc (unat (page_end ((ps @ [q]) ! i))) = unat (page_begin ((ps @ [q]) ! Suc i))"
    proof cases
      case 1 then show ?thesis by (simp add: nth_append links)
    next
      case 2
      then have "i = length ps - 1" by simp
      then show ?thesis using 2 lst b by (simp add: nth_append)
    qed
  qed
  show ?thesis unfolding pages_inv_def using 1 2 3 e by simp
qed

lemma pages_inv_extend:
  assumes inv: "pages_inv hs n (ps @ [c])" and ok: "page_ok hs (length ps) c'"
    and b: "page_begin c' = page_begin c" and e: "Suc (unat (page_end c')) = m"
  shows "pages_inv hs m (ps @ [c'])"
proof -
  have oks: "\<And>i. i < length ps \<Longrightarrow> page_ok hs i (ps ! i)"
  proof -
    fix i assume i: "i < length ps"
    have "\<forall>i < length (ps @ [c]). page_ok hs i ((ps @ [c]) ! i)"
      using inv unfolding pages_inv_def by blast
    from this[rule_format, of i] i show "page_ok hs i (ps ! i)" by (simp add: nth_append)
  qed
  have links: "\<And>i. Suc i < length (ps @ [c]) \<Longrightarrow>
                 Suc (unat (page_end ((ps @ [c]) ! i))) = unat (page_begin ((ps @ [c]) ! Suc i))"
    using inv unfolding pages_inv_def by blast
  have 1: "\<forall>i < length (ps @ [c']). page_ok hs i ((ps @ [c']) ! i)"
  proof (intro allI impI)
    fix i assume "i < length (ps @ [c'])"
    then consider "i < length ps" | "i = length ps" by fastforce
    then show "page_ok hs i ((ps @ [c']) ! i)"
      by cases (simp_all add: nth_append oks ok)
  qed
  have "unat (page_begin ((ps @ [c]) ! 0)) = 0"
    using inv unfolding pages_inv_def by blast
  then have 2: "unat (page_begin ((ps @ [c']) ! 0)) = 0"
    using b by (cases ps) simp_all
  have 3: "\<forall>i. Suc i < length (ps @ [c']) \<longrightarrow>
             Suc (unat (page_end ((ps @ [c']) ! i))) = unat (page_begin ((ps @ [c']) ! Suc i))"
  proof (intro allI impI)
    fix i assume a: "Suc i < length (ps @ [c'])"
    then have "Suc i < length (ps @ [c])" by simp
    from links[OF this] a
    show "Suc (unat (page_end ((ps @ [c']) ! i))) = unat (page_begin ((ps @ [c']) ! Suc i))"
      using b by (simp add: nth_append split: if_splits)
  qed
  show ?thesis unfolding pages_inv_def using 1 2 3 e by simp
qed

lemma loop_body_inv:
  assumes len: "length hs < 2 ^ 32" and lt: "n < length hs" and inv: "pages_inv hs n (pages @ [cur])"
  shows "case loop_body hs (of_nat n) cur pages of (c, p) \<Rightarrow> pages_inv hs (Suc n) (p @ [c])"
proof -
  have un: "unat (of_nat n :: 32 word) = n" using lt len by (simp add: un32)
  have "\<forall>i < length (pages @ [cur]). page_ok hs i ((pages @ [cur]) ! i)"
    using inv unfolding pages_inv_def by blast
  from this[rule_format, of "length pages"]
  have ok: "page_ok hs (length pages) cur" by simp
  have en: "Suc (unat (page_end cur)) = n"
    using inv by (simp add: pages_inv_def)
  let ?bs = "unat (body_size (hs ! n))"
  have bs: "?bs < 2 ^ 32" using unsigned_less[of "body_size (hs ! n)"] by simp
  have sz: "unat (size_bytes cur) < 2 ^ 32" by (rule page_ok_size_lt[OF ok])
  have sum1: "unat (ucast (body_size (hs ! n)) + size_bytes cur :: 64 word) = ?bs + unat (size_bytes cur)"
    using bs sz by (simp add: unat_add_lem[THEN iffD1] unat_ucast_32_64)
  have sum2: "unat (size_bytes cur + ucast (body_size (hs ! n)) :: 64 word) = unat (size_bytes cur) + ?bs"
    using bs sz by (simp add: unat_add_lem[THEN iffD1] unat_ucast_32_64)
  have tgt: "unat (of_nat TARGET_PAGE_SIZE :: 64 word) = TARGET_PAGE_SIZE"
    by (simp add: TARGET_PAGE_SIZE_def)
  have cond: "(ucast (body_size (hs ! n)) + size_bytes cur > (of_nat TARGET_PAGE_SIZE :: 64 word))
                \<longleftrightarrow> ?bs + unat (size_bytes cur) > TARGET_PAGE_SIZE"
    by (simp add: word_less_nat_alt sum1 tgt)
  show ?thesis
  proof (cases "?bs + unat (size_bytes cur) > TARGET_PAGE_SIZE")
    case True
    let ?new = "\<lparr> page_index = page_index cur + 1, page_type = swap,
                 page_begin = of_nat n, page_end = of_nat n,
                 offset_bytes = offset_bytes cur + size_bytes cur,
                 size_bytes = ucast (body_size (hs ! n)) \<rparr>"
    have lb: "loop_body hs (of_nat n) cur pages = (?new, pages @ [cur])"
      using True cond by (simp add: loop_body_def un)
    have off: "unat (offset_bytes cur + size_bytes cur)
                 = sum_list (map (\<lambda>h. unat (body_size h)) (take n hs))"
      using page_ok_offset_add[OF ok len] page_ok_offset_size[OF ok] en by simp
    have idx: "page_index cur + 1 = of_nat (Suc (length pages))"
      using ok by (simp add: page_ok_def)
    have new_ok: "page_ok hs (Suc (length pages)) ?new"
      using lt by (simp add: page_ok_def un idx off bodies_size_single unat_ucast_32_64)
    have "pages_inv hs (Suc n) ((pages @ [cur]) @ [?new])"
    proof (rule pages_inv_snoc[OF inv])
      show "page_ok hs (length (pages @ [cur])) ?new" using new_ok by simp
      show "unat (page_begin ?new) = n" by (simp add: un)
      show "Suc (unat (page_end ?new)) = Suc n" by (simp add: un)
    qed
    then show ?thesis by (simp add: lb)
  next
    case False
    let ?ext = "cur \<lparr> page_end := of_nat n,
                     size_bytes := size_bytes cur + ucast (body_size (hs ! n)) \<rparr>"
    have lb: "loop_body hs (of_nat n) cur pages = (?ext, pages)"
      using False cond by (simp add: loop_body_def un)
    have be: "unat (page_begin cur) \<le> unat (page_end cur)" using ok by (simp add: page_ok_def)
    have szs: "bodies_size hs (unat (page_begin cur)) n
                 = bodies_size hs (unat (page_begin cur)) (unat (page_end cur)) + ?bs"
      using bodies_size_Suc[of "unat (page_begin cur)" "unat (page_end cur)" hs] be en lt by simp
    have ext_ok: "page_ok hs (length pages) ?ext"
      using ok lt be en False by (simp add: page_ok_def un sum2 szs)
    have "pages_inv hs (Suc n) (pages @ [?ext])"
    proof (rule pages_inv_extend[OF inv])
      show "page_ok hs (length pages) ?ext" by (rule ext_ok)
      show "page_begin ?ext = page_begin cur" by simp
      show "Suc (unat (page_end ?ext)) = Suc n" by (simp add: un)
    qed
    then show ?thesis by (simp add: lb)
  qed
qed

lemma loop_rule:
  assumes len: "length hs < 2 ^ 32" and n: "n \<le> length hs" and I: "I n cur pages"
    and step: "\<And>n cur pages. n < length hs \<Longrightarrow> I n cur pages \<Longrightarrow>
                 (case loop_body hs (of_nat n) cur pages of (c, p) \<Rightarrow> I (Suc n) c p)"
  shows "\<exists>cur' pages'. write_pages_loop hs (of_nat n) cur pages = Some (cur', pages')
           \<and> I (length hs) cur' pages'"
  using n I
proof (induction "length hs - n" arbitrary: n cur pages)
  case 0
  then have "n = length hs" by simp
  moreover have "unat (of_nat (length hs) :: 32 word) = length hs"
    using len by (simp add: un32)
  ultimately show ?case using 0
    by (subst write_pages_loop.simps) simp
next
  case (Suc k)
  then have lt: "n < length hs" by simp
  have un: "unat (of_nat n :: 32 word) = n"
    using lt len by (simp add: un32)
  obtain c p where lb: "loop_body hs (of_nat n) cur pages = (c, p)"
    by (cases "loop_body hs (of_nat n) cur pages")
  from step[OF lt Suc.prems(2)] lb have "I (Suc n) c p" by simp
  moreover have "k = length hs - Suc n" using Suc.hyps(2) by simp
  moreover have "Suc n \<le> length hs" using lt by simp
  ultimately have "\<exists>cur' pages'. write_pages_loop hs (of_nat (Suc n)) c p = Some (cur', pages')
           \<and> I (length hs) cur' pages'"
    using Suc.hyps(1) by blast
  moreover have "write_pages_loop hs (of_nat n) cur pages = write_pages_loop hs (of_nat (Suc n)) c p"
    by (subst write_pages_loop.simps) (simp add: un lt lb add.commute)
  ultimately show ?case by simp
qed

lemma collect_pages_inv:
  assumes ne: "hs \<noteq> []" and len: "length hs < 2 ^ 32"
  shows "\<exists>pages. collect_pages hs = Some (Inr pages) \<and> pages_inv hs (length hs) pages"
proof -
  let ?init = "\<lparr> page_index = 0, page_type = persistent, page_begin = 0, page_end = 0,
                 offset_bytes = 0, size_bytes = ucast (body_size (hs ! 0)) \<rparr>"
  have pos: "0 < length hs" using ne by simp
  have ok0: "page_ok hs 0 ?init"
    using pos by (simp add: page_ok_def bodies_size_single unat_ucast_32_64)
  have inv0: "pages_inv hs 1 ([] @ [?init])"
    using ok0 by (simp add: pages_inv_def)
  have "\<exists>cur' pages'. write_pages_loop hs (of_nat 1) ?init [] = Some (cur', pages')
           \<and> pages_inv hs (length hs) (pages' @ [cur'])"
  proof (rule loop_rule[where I = "\<lambda>n c p. pages_inv hs n (p @ [c])", OF len])
    show "1 \<le> length hs" using ne by (cases hs) simp_all
    show "pages_inv hs 1 ([] @ [?init])" by (rule inv0)
  next
    fix n cur pages
    assume a: "n < length hs" and b: "pages_inv hs n (pages @ [cur])"
    show "case loop_body hs (of_nat n) cur pages of (c, p) \<Rightarrow> pages_inv hs (Suc n) (p @ [c])"
      by (rule loop_body_inv[OF len a b])
  qed
  then obtain cur' pages' where
    "write_pages_loop hs 1 ?init [] = Some (cur', pages')" "pages_inv hs (length hs) (pages' @ [cur'])"
    by auto
  then show ?thesis using pos by (simp add: collect_pages_def)
qed

text \<open>
  The bound on the number of headers is needed: on \<open>2 ^ 32\<close> headers or more the loop
  counter wraps before it reaches the size of the vector, and the loop does not return.
\<close>

lemma write_pages_loop_returns:
  assumes "write_pages_loop hs node cur pages = Some y"
  shows "length hs < 2 ^ 32"
proof (rule write_pages_loop.raw_induct[where P = "\<lambda>hs _ _ _ _. length hs < 2 ^ 32", OF _ assms])
  fix loop :: "node_header list \<Rightarrow> 32 word \<Rightarrow> memory_page \<Rightarrow> memory_page list
                 \<Rightarrow> (memory_page \<times> memory_page list) option"
    and headers node current pages y
  assume IH: "\<And>headers node current pages y.
                loop headers node current pages = Some y \<Longrightarrow> length headers < 2 ^ 32"
    and step: "(if unat node < length headers
                then case loop_body headers node current pages of
                       (current', pages') \<Rightarrow> loop headers (node + 1) current' pages'
                else Some (current, pages)) = Some y"
  show "length headers < 2 ^ 32"
  proof (cases "unat node < length headers")
    case True
    then show ?thesis using step IH by (auto split: prod.splits)
  next
    case False
    moreover have "unat node < 2 ^ 32" using unsigned_less[of node] by simp
    ultimately show ?thesis by simp
  qed
qed

lemma write_pages_loop_diverges:
  "2 ^ 32 \<le> length hs \<Longrightarrow> write_pages_loop hs node cur pages = None"
  using write_pages_loop_returns[of hs node cur pages]
  by (cases "write_pages_loop hs node cur pages") auto

lemma collect_pages_diverges:
  "2 ^ 32 \<le> length hs \<Longrightarrow> collect_pages hs = None"
proof -
  assume l: "2 ^ 32 \<le> length hs"
  then have "0 < length hs" by (cases hs) simp_all
  then show ?thesis using l by (simp add: collect_pages_def write_pages_loop_diverges)
qed

section \<open>Consequences of the invariant\<close>

lemma pages_inv_nth:
  assumes "pages_inv hs n ps" and "i < length ps"
  shows "page_ok hs i (ps ! i)"
  using assms by (simp add: pages_inv_def)

lemma pages_inv_link:
  assumes "pages_inv hs n ps" and "Suc i < length ps"
  shows "Suc (unat (page_end (ps ! i))) = unat (page_begin (ps ! Suc i))"
  using assms by (simp add: pages_inv_def)

lemma pages_inv_types:
  assumes inv: "pages_inv hs n ps"
  shows "\<exists>p0 rest. ps = p0 # rest \<and> page_type p0 = persistent \<and> (\<forall>p \<in> set rest. page_type p = swap)"
proof -
  have ne: "ps \<noteq> []" using inv by (simp add: pages_inv_def)
  then obtain p0 rest where ps: "ps = p0 # rest" by (cases ps) auto
  have "page_ok hs 0 (ps ! 0)" using pages_inv_nth[OF inv, of 0] ne by simp
  then have first: "page_type p0 = persistent" using ps by (simp add: page_ok_def)
  have "\<forall>p \<in> set rest. page_type p = swap"
  proof
    fix p assume "p \<in> set rest"
    then obtain i where i: "i < length rest" and p: "p = rest ! i"
      by (auto simp add: in_set_conv_nth)
    then have "Suc i < length ps" using ps by simp
    then have "page_ok hs (Suc i) (ps ! Suc i)" by (rule pages_inv_nth[OF inv])
    then show "page_type p = swap" using p ps by (simp add: page_ok_def)
  qed
  then show ?thesis using ps first by blast
qed

lemma pages_inv_size_lt:
  assumes inv: "pages_inv hs n ps" and p: "p \<in> set ps"
  shows "unat (size_bytes p) < 2 ^ 32"
proof -
  from p obtain i where "i < length ps" "p = ps ! i" by (auto simp add: in_set_conv_nth)
  then show ?thesis using pages_inv_nth[OF inv] page_ok_size_lt by blast
qed

lemma fold_working_size:
  "fold (\<lambda>page (working_size, largest_swap).
            if page_type page = persistent
            then (working_size + size_bytes page, largest_swap)
            else (working_size, max largest_swap (size_bytes page))) ps (ws, ls)
     = (ws + sum_list (map size_bytes (filter (\<lambda>p. page_type p = persistent) ps)),
        fold max (map size_bytes (filter (\<lambda>p. page_type p = swap) ps)) ls)"
proof (induction ps arbitrary: ws ls)
  case Nil show ?case by simp
next
  case (Cons p ps)
  show ?case
  proof (cases "page_type p")
    case persistent then show ?thesis using Cons by (simp add: add.assoc)
  next
    case swap then show ?thesis using Cons by (simp add: max.commute)
  qed
qed

lemma unat_fold_max:
  "unat (fold max ws (l :: 64 word)) = fold max (map unat ws) (unat l)"
proof (induction ws arbitrary: l)
  case Nil show ?case by simp
next
  case (Cons w ws)
  have "unat (max w l) = max (unat w) (unat l)"
    by (simp add: max_def word_le_nat_alt)
  then show ?case using Cons by simp
qed

lemma Max_cons_lt:
  assumes "\<forall>x \<in> set xs. x < (k::nat)" and "0 < k"
  shows "Max (set (0 # xs)) < k"
  using assms by (subst Max_less_iff) auto

lemma working_size_unat:
  assumes inv: "pages_inv hs n ps"
  shows "unat (working_size_of ps)
           = sum_list (map (\<lambda>p. unat (size_bytes p)) (filter (\<lambda>p. page_type p = persistent) ps))
             + Max (set (0 # map (\<lambda>p. unat (size_bytes p)) (filter (\<lambda>p. page_type p = swap) ps)))"
proof -
  from pages_inv_types[OF inv] obtain p0 rest where
    ps: "ps = p0 # rest" and t0: "page_type p0 = persistent"
    and tr: "\<forall>p \<in> set rest. page_type p = swap" by blast
  have fp: "filter (\<lambda>p. page_type p = persistent) ps = [p0]"
    using ps t0 tr by (simp add: filter_empty_conv)
  let ?sw = "filter (\<lambda>p. page_type p = swap) ps"
  have s0: "unat (size_bytes p0) < 2 ^ 32"
    using pages_inv_size_lt[OF inv, of p0] ps by simp
  have mx: "unat (fold max (map size_bytes ?sw) 0)
              = Max (set (0 # map (\<lambda>p. unat (size_bytes p)) ?sw))"
    by (simp only: unat_fold_max Max.set_eq_fold list.map map_map comp_def unsigned_0)
  have "\<forall>x \<in> set (map (\<lambda>p. unat (size_bytes p)) ?sw). x < 2 ^ 32"
    using pages_inv_size_lt[OF inv] by auto
  then have ml: "Max (set (0 # map (\<lambda>p. unat (size_bytes p)) ?sw)) < 2 ^ 32"
    by (rule Max_cons_lt) simp
  have "working_size_of ps = size_bytes p0 + fold max (map size_bytes ?sw) 0"
    by (simp add: working_size_of_def fold_working_size fp del: fold_simps)
  moreover have "unat (size_bytes p0 + fold max (map size_bytes ?sw) 0)
                   = unat (size_bytes p0) + unat (fold max (map size_bytes ?sw) 0)"
  proof (rule unat_add_lem[THEN iffD1])
    have "unat (size_bytes p0) + Max (set (0 # map (\<lambda>p. unat (size_bytes p)) ?sw)) < 2 ^ 32 + 2 ^ 32"
      using s0 ml by (rule add_strict_mono)
    then show "unat (size_bytes p0) + unat (fold max (map size_bytes ?sw) 0) < 2 ^ LENGTH(64)"
      unfolding mx by simp
  qed
  ultimately have "unat (working_size_of ps)
      = unat (size_bytes p0) + Max (set (0 # map (\<lambda>p. unat (size_bytes p)) ?sw))"
    unfolding mx by simp
  then show ?thesis unfolding fp by simp
qed

lemma pages_inv_be:
  assumes "pages_inv hs n ps" and "i < length ps"
  shows "unat (page_begin (ps ! i)) \<le> unat (page_end (ps ! i))"
  using pages_inv_nth[OF assms] by (simp add: page_ok_def)

lemma pages_inv_mono:
  assumes inv: "pages_inv hs n ps"
  shows "i < k \<Longrightarrow> k < length ps \<Longrightarrow> unat (page_end (ps ! i)) < unat (page_begin (ps ! k))"
proof (induction k)
  case 0 then show ?case by simp
next
  case (Suc k)
  have link: "Suc (unat (page_end (ps ! k))) = unat (page_begin (ps ! Suc k))"
    using pages_inv_link[OF inv] Suc.prems by simp
  show ?case
  proof (cases "i = k")
    case True then show ?thesis using link by simp
  next
    case False
    then have "unat (page_end (ps ! i)) < unat (page_begin (ps ! k))"
      using Suc by simp
    moreover have "unat (page_begin (ps ! k)) \<le> unat (page_end (ps ! k))"
      using pages_inv_be[OF inv, of k] Suc.prems by simp
    ultimately show ?thesis using link by simp
  qed
qed

lemma pages_inv_cover:
  assumes inv: "pages_inv hs n ps"
  shows "i < length ps \<Longrightarrow> j \<le> unat (page_end (ps ! i)) \<Longrightarrow>
           \<exists>k \<le> i. unat (page_begin (ps ! k)) \<le> j \<and> j \<le> unat (page_end (ps ! k))"
proof (induction i)
  case 0
  have "unat (page_begin (ps ! 0)) = 0" using inv by (simp add: pages_inv_def)
  then show ?case using 0 by auto
next
  case (Suc i)
  show ?case
  proof (cases "j \<le> unat (page_end (ps ! i))")
    case True
    then obtain k where "k \<le> i" "unat (page_begin (ps ! k)) \<le> j \<and> j \<le> unat (page_end (ps ! k))"
      using Suc by auto
    then show ?thesis using le_Suc_eq by blast
  next
    case False
    moreover have "Suc (unat (page_end (ps ! i))) = unat (page_begin (ps ! Suc i))"
      using pages_inv_link[OF inv] Suc.prems by simp
    ultimately have "unat (page_begin (ps ! Suc i)) \<le> j" by simp
    then show ?thesis using Suc.prems by blast
  qed
qed

lemma pages_inv_index_le:
  assumes inv: "pages_inv hs n ps"
  shows "i < length ps \<Longrightarrow> i \<le> unat (page_begin (ps ! i))"
proof (induction i)
  case 0 show ?case by simp
next
  case (Suc i)
  have "Suc (unat (page_end (ps ! i))) = unat (page_begin (ps ! Suc i))"
    using pages_inv_link[OF inv] Suc.prems by simp
  moreover have "unat (page_begin (ps ! i)) \<le> unat (page_end (ps ! i))"
    using pages_inv_be[OF inv, of i] Suc.prems by simp
  ultimately show ?case using Suc by simp
qed

lemma pages_inv_unique:
  assumes inv: "pages_inv hs n ps"
    and i: "i < length ps" "unat (page_begin (ps ! i)) \<le> j" "j \<le> unat (page_end (ps ! i))"
    and k: "k < length ps" "unat (page_begin (ps ! k)) \<le> j" "j \<le> unat (page_end (ps ! k))"
  shows "i = k"
proof (rule ccontr)
  assume "i \<noteq> k"
  then consider "i < k" | "k < i" by linarith
  then show False
  proof cases
    case 1
    from pages_inv_mono[OF inv 1 k(1)] i k show False by simp
  next
    case 2
    from pages_inv_mono[OF inv 2 i(1)] i k show False by simp
  qed
qed

lemma fold_write_pages:
  "fold (\<lambda>page w. write_bytes k (Page_item page) w) pages w0
     = \<lparr> position = position w0 + k * length pages,
         written = written w0
           @ map (\<lambda>i. \<lparr> at = position w0 + k * i, len = k, what = Page_item (pages ! i) \<rparr>)
               [0..<length pages] \<rparr>"
proof (induction pages rule: rev_induct)
  case Nil show ?case by simp
next
  case (snoc p ps)
  have "map (\<lambda>i. \<lparr> at = position w0 + k * i, len = k, what = Page_item ((ps @ [p]) ! i) \<rparr>) [0..<length ps]
          = map (\<lambda>i. \<lparr> at = position w0 + k * i, len = k, what = Page_item (ps ! i) \<rparr>) [0..<length ps]"
    by (simp add: nth_append)
  then show ?case using snoc by (simp add: write_bytes_def)
qed

lemmas planner_eval =
  collect_pages_def write_pages_loop.simps loop_body_def TARGET_PAGE_SIZE_def hdr_def

lemma example_pages:
  "collect_pages example_headers
     = Some (Inr [\<lparr> page_index = 0, page_type = persistent, page_begin = 0, page_end = 0,
                     offset_bytes = 0, size_bytes = 2000000 \<rparr>,
                   \<lparr> page_index = 1, page_type = swap, page_begin = 1, page_end = 2,
                     offset_bytes = 2000000, size_bytes = 1000005 \<rparr>,
                   \<lparr> page_index = 2, page_type = swap, page_begin = 3, page_end = 3,
                     offset_bytes = 3000005, size_bytes = 2299990 \<rparr>])"
  by (simp add: example_headers_def planner_eval)

section \<open>The body loop in closed form\<close>

lemma length_body_spans: "length (body_spans p bs) = length bs"
  by (induction bs arbitrary: p) simp_all

lemma body_spans_Nil: "body_spans p bs = [] \<longleftrightarrow> bs = []"
  by (cases bs) simp_all

lemma align_up_ge: "p \<le> align_up n p"
  by (simp add: align_up_def)

lemma align_up_dvd: "0 < n \<Longrightarrow> n dvd align_up n p"
proof -
  assume n: "0 < n"
  show ?thesis
  proof (cases "p mod n = 0")
    case True then show ?thesis by (simp add: align_up_def dvd_eq_mod_eq_0)
  next
    case False
    have e: "p div n * n + p mod n = p" by simp
    have "p mod n < n" using n by simp
    then have "p + (n - p mod n) = p div n * n + n" using e by linarith
    then show ?thesis using False by (simp add: align_up_def)
  qed
qed

lemma align_step:
  "align_position 8 (serialize b w)
     = \<lparr> position = align_up 8 (position w + length (body_bytes b)),
         written = written w
           @ body_and_padding b (position w, align_up 8 (position w + length (body_bytes b))) \<rparr>"
  by (simp add: align_position_def serialize_def write_bytes_def align_up_def body_and_padding_def Let_def)

lemma write_bodies_closed:
  assumes "\<forall>n \<in> set rnodes. \<forall>e. call_emitter reg n context \<noteq> Inl e"
  shows "write_bodies reg context rnodes w hs
           = Inr (\<lparr> position = (if emitted_bodies reg context rnodes = [] then position w
                                 else snd (last (body_spans (position w) (emitted_bodies reg context rnodes)))),
                     written = written w
                       @ concat (map2 body_and_padding (emitted_bodies reg context rnodes)
                                   (body_spans (position w) (emitted_bodies reg context rnodes))) \<rparr>,
                  hs @ map2 header_of_span (emitted_bodies reg context rnodes)
                         (body_spans (position w) (emitted_bodies reg context rnodes)))"
  using assms
proof (induction rnodes arbitrary: w hs)
  case Nil
  show ?case by simp
next
  case (Cons n ns)
  have rest: "\<forall>n \<in> set ns. \<forall>e. call_emitter reg n context \<noteq> Inl e" using Cons.prems by simp
  note IH = Cons.IH[OF rest]
  show ?case
  proof (cases "call_emitter reg n context")
    case (Inl e)
    then show ?thesis using Cons.prems by simp
  next
    case (Inr r)
    show ?thesis
    proof (cases r)
      case None
      then show ?thesis using Inr IH by simp
    next
      case (Some b)
      let ?e = "align_up 8 (position w + length (body_bytes b))"
      show ?thesis
        using Inr Some
        by (simp add: IH align_step Let_def header_of_span_def body_spans_Nil)
    qed
  qed
qed

section \<open>The serializer: unfolding, failures and the output record\<close>

lemma call_emitter_Inl_iff:
  "call_emitter reg n context = Inl e \<longleftrightarrow>
     g_emitters reg (runtime_opcode n) = None \<and> runtime_opcode n \<notin> g_disabled_emitters reg
     \<and> e = Emitter_not_found (runtime_opcode n)"
  by (auto simp add: call_emitter_def Let_def split: option.splits)

lemma write_bodies_fails:
  assumes "\<exists>n \<in> set rnodes. g_emitters reg (runtime_opcode n) = None
             \<and> runtime_opcode n \<notin> g_disabled_emitters reg"
  shows "\<exists>opc. write_bodies reg context rnodes w hs = Inl (Emitter_not_found opc)
           \<and> g_emitters reg opc = None \<and> opc \<notin> g_disabled_emitters reg"
  using assms
proof (induction rnodes arbitrary: w hs)
  case Nil
  then show ?case by simp
next
  case (Cons n ns)
  show ?case
  proof (cases "call_emitter reg n context")
    case (Inl e)
    then have f: "g_emitters reg (runtime_opcode n) = None"
      "runtime_opcode n \<notin> g_disabled_emitters reg" "e = Emitter_not_found (runtime_opcode n)"
      by (simp_all add: call_emitter_Inl_iff)
    have "write_bodies reg context (n # ns) w hs = Inl (Emitter_not_found (runtime_opcode n))"
      using Inl f(3) by simp
    then show ?thesis using f(1,2) by blast
  next
    case (Inr r)
    then have "\<not> (g_emitters reg (runtime_opcode n) = None
                   \<and> runtime_opcode n \<notin> g_disabled_emitters reg)"
      using call_emitter_Inl_iff[of reg n "context" "Emitter_not_found (runtime_opcode n)"] by auto
    then have rest: "\<exists>n \<in> set ns. g_emitters reg (runtime_opcode n) = None
                       \<and> runtime_opcode n \<notin> g_disabled_emitters reg"
      using Cons.prems by auto
    show ?thesis
    proof (cases r)
      case None
      then show ?thesis using Inr Cons.IH[OF rest] by simp
    next
      case (Some b)
      then show ?thesis using Inr Cons.IH[OF rest] by (simp add: Let_def)
    qed
  qed
qed

lemma paging_flag_set:
  "flags (make_model_header reg context compute_sequence) AND KM_NODE_PAGING = KM_NODE_PAGING"
  "KM_NODE_PAGING \<noteq> 0"
  by (simp_all add: make_model_header_def KM_NODE_PAGING_def Let_def)

lemma gencode_unfold:
  "gencode ndebug sz reg context writer compute_sequence
     = (case write_bodies reg context (runtime_nodes_of reg compute_sequence)
               (set_position (body_region_start sz reg context writer compute_sequence)
                  (write_prologue sz reg context writer compute_sequence)) []
        of Inl e \<Rightarrow> Some (Inl e)
         | Inr (w, node_headers) \<Rightarrow>
             (case write_pages ndebug
                     (write_bytes (sizeof_node_header sz * length node_headers)
                        (Node_headers_item node_headers)
                        (set_position (node_headers_pos_of sz reg context writer compute_sequence) w))
                     node_headers (runtime_nodes_of reg compute_sequence)
              of None \<Rightarrow> None
               | Some (Inl e) \<Rightarrow> Some (Inl e)
               | Some (Inr w') \<Rightarrow> Some (Inr (set_position (position w) w'))))"
proof -
  have "flags (make_model_header reg context compute_sequence) AND KM_NODE_PAGING \<noteq> 0"
    using paging_flag_set(1)[of reg "context" compute_sequence] paging_flag_set(2) by simp
  then show ?thesis
    by (simp add: gencode_def Let_def body_region_start_def node_headers_pos_of_def
          split: sum.splits prod.splits)
qed

lemma body_spans_snd:
  "k < length bs \<Longrightarrow>
     snd (body_spans p bs ! k) = align_up 8 (fst (body_spans p bs ! k) + length (body_bytes (bs ! k)))"
proof (induction bs arbitrary: p k)
  case Nil then show ?case by simp
next
  case (Cons b bs) then show ?case by (cases k) simp_all
qed

lemma body_spans_next:
  "Suc k < length bs \<Longrightarrow> fst (body_spans p bs ! Suc k) = snd (body_spans p bs ! k)"
proof (induction bs arbitrary: p k)
  case Nil then show ?case by simp
next
  case (Cons b bs)
  show ?case
  proof (cases k)
    case 0
    then show ?thesis using Cons.prems by (cases bs) simp_all
  next
    case (Suc j)
    then show ?thesis using Cons by simp
  qed
qed

lemma body_spans_first: "bs \<noteq> [] \<Longrightarrow> fst (body_spans p bs ! 0) = p"
  by (cases bs) simp_all

lemma bodies_of_log_append: "bodies_of_log (xs @ ys) = bodies_of_log xs @ bodies_of_log ys"
  by (induction xs) (simp_all split: item.splits)

lemma node_headers_of_log_append:
  "node_headers_of_log (xs @ ys) = node_headers_of_log xs @ node_headers_of_log ys"
  by (induction xs) (simp_all split: item.splits)

lemma bodies_of_log_spans:
  "length xs = length bs \<Longrightarrow> bodies_of_log (concat (map2 body_and_padding bs xs)) = bs"
proof (induction bs arbitrary: xs)
  case Nil then show ?case by simp
next
  case (Cons b bs)
  then obtain x xs' where "xs = x # xs'" by (cases xs) auto
  then show ?case using Cons
    by (cases x) (simp add: body_and_padding_def bodies_of_log_append)
qed

lemma node_headers_of_log_spans:
  "node_headers_of_log (concat (map2 body_and_padding bs xs)) = []"
proof (induction bs arbitrary: xs)
  case Nil then show ?case by simp
next
  case (Cons b bs)
  show ?case
  proof (cases xs)
    case Nil then show ?thesis by simp
  next
    case (Cons x xs')
    then show ?thesis using Cons.IH
      by (cases x) (simp add: body_and_padding_def node_headers_of_log_append)
  qed
qed

lemma bodies_of_log_pages:
  "bodies_of_log (map (\<lambda>i. \<lparr> at = f i, len = k, what = Page_item (g i) \<rparr>) is) = []"
  by (induction "is") simp_all

lemma node_headers_of_log_pages:
  "node_headers_of_log (map (\<lambda>i. \<lparr> at = f i, len = k, what = Page_item (g i) \<rparr>) is) = []"
  by (induction "is") simp_all

lemma written_prologue:
  "\<exists>es. written (write_prologue sz reg context writer compute_sequence) = written writer @ es
     \<and> bodies_of_log es = [] \<and> node_headers_of_log es = []
     \<and> hd es = \<lparr> at = position writer, len = sizeof_model_header sz,
                  what = Model_header_item (make_model_header reg context compute_sequence) \<rparr>"
  by (simp add: write_prologue_def write_bytes_def Let_def)

lemma map_opcode_spans:
  "length xs = length bs \<Longrightarrow> map opcode (map2 header_of_span bs xs) = map body_opcode bs"
proof (induction bs arbitrary: xs)
  case Nil then show ?case by simp
next
  case (Cons b bs)
  then obtain x xs' where "xs = x # xs'" by (cases xs) auto
  then show ?case using Cons by (cases x) (simp add: header_of_span_def)
qed

lemma emitted_bodies_none:
  "\<forall>n \<in> set rnodes. call_emitter reg n ctx = Inr None \<Longrightarrow> emitted_bodies reg ctx rnodes = []"
  by (induction rnodes) simp_all

lemma collect_pages_not_oob:
  "headers \<noteq> [] \<Longrightarrow> collect_pages headers \<noteq> Some (Inl Index_out_of_range)"
  by (simp add: collect_pages_def split: option.splits prod.splits)

lemma header_of_span_nth:
  "k < length bs \<Longrightarrow>
     map2 header_of_span bs (body_spans p bs) ! k
       = \<lparr> opcode = body_opcode (bs ! k),
           body_size = of_nat (snd (body_spans p bs ! k) - fst (body_spans p bs ! k)) \<rparr>"
  by (simp add: header_of_span_def split_beta length_body_spans)

lemma align_up_less: "0 < n \<Longrightarrow> align_up n p - p < n"
  by (simp add: align_up_def)

lemma body_spans_start_dvd:
  "0 < k \<Longrightarrow> k < length bs \<Longrightarrow> 8 dvd fst (body_spans p bs ! k)"
proof -
  assume "0 < k" and k: "k < length bs"
  then obtain j where j: "k = Suc j" by (cases k) auto
  then have "fst (body_spans p bs ! k) = snd (body_spans p bs ! j)"
    using k body_spans_next by simp
  also have "\<dots> = align_up 8 (fst (body_spans p bs ! j) + length (body_bytes (bs ! j)))"
    using k j body_spans_snd by simp
  finally show ?thesis by (simp add: align_up_dvd)
qed

lemma write_pages_written:
  assumes "write_pages ndebug wr hs rn = Some (Inr w')"
  shows "\<exists>table pages. written w' = written wr
           @ \<lparr> at = position wr, len = sizeof_memory_page_table, what = Page_table_item table \<rparr>
           # map (\<lambda>i. \<lparr> at = position wr + sizeof_memory_page_table + sizeof_memory_page * i,
                         len = sizeof_memory_page, what = Page_item (pages ! i) \<rparr>)
               [0..<length pages]"
proof -
  from assms obtain table pages where
    w': "w' = fold (\<lambda>page w. write_bytes sizeof_memory_page (Page_item page) w) pages
                (write_bytes sizeof_memory_page_table (Page_table_item table) wr)"
    by (auto simp add: write_pages_def split: option.splits sum.splits prod.splits)
  show ?thesis
    unfolding w' fold_write_pages
    by (intro exI[of _ table] exI[of _ pages]) (simp add: write_bytes_def)
qed

lemma gencode_success_log:
  assumes g: "gencode ndebug sz reg ctx writer compute_sequence = Some (Inr w)"
  shows "bodies_of_log (written w)
           = bodies_of_log (written writer)
             @ emitted_bodies reg ctx (runtime_nodes_of reg compute_sequence)
         \<and> (\<exists>hs. node_headers_of_log (written w) = node_headers_of_log (written writer) @ [hs]
                \<and> map opcode hs
                    = map body_opcode (emitted_bodies reg ctx (runtime_nodes_of reg compute_sequence)))"
proof -
  let ?rn = "runtime_nodes_of reg compute_sequence"
  let ?w0 = "set_position (body_region_start sz reg ctx writer compute_sequence)
               (write_prologue sz reg ctx writer compute_sequence)"
  let ?B = "emitted_bodies reg ctx ?rn"
  let ?S = "body_spans (position ?w0) ?B"
  have nofail: "\<forall>n \<in> set ?rn. \<forall>e. call_emitter reg n ctx \<noteq> Inl e"
  proof (rule ccontr)
    assume "\<not> (\<forall>n \<in> set ?rn. \<forall>e. call_emitter reg n ctx \<noteq> Inl e)"
    then have "\<exists>n \<in> set ?rn. g_emitters reg (runtime_opcode n) = None
                 \<and> runtime_opcode n \<notin> g_disabled_emitters reg"
      by (auto simp add: call_emitter_Inl_iff)
    from write_bodies_fails[OF this, of ctx ?w0 "[]"]
    obtain opc where "write_bodies reg ctx ?rn ?w0 [] = Inl (Emitter_not_found opc)" by blast
    then show False using g unfolding gencode_unfold by simp
  qed
  note wb = write_bodies_closed[OF nofail, of ?w0 "[]"]
  let ?wb = "\<lparr> position = (if ?B = [] then position ?w0 else snd (last ?S)),
               written = written ?w0 @ concat (map2 body_and_padding ?B ?S) \<rparr>"
  let ?hs = "map2 header_of_span ?B ?S"
  let ?wr = "write_bytes (sizeof_node_header sz * length ?hs) (Node_headers_item ?hs)
               (set_position (node_headers_pos_of sz reg ctx writer compute_sequence) ?wb)"
  from g obtain w' where wp: "write_pages ndebug ?wr ?hs ?rn = Some (Inr w')"
    and w: "w = set_position (position ?wb) w'"
    unfolding gencode_unfold wb
    by (auto split: option.splits sum.splits)
  from write_pages_written[OF wp] obtain table pages where
    lw: "written w' = written ?wr
           @ \<lparr> at = position ?wr, len = sizeof_memory_page_table, what = Page_table_item table \<rparr>
           # map (\<lambda>i. \<lparr> at = position ?wr + sizeof_memory_page_table + sizeof_memory_page * i,
                         len = sizeof_memory_page, what = Page_item (pages ! i) \<rparr>)
               [0..<length pages]"
    by blast
  from written_prologue[of sz reg ctx writer compute_sequence] obtain es where
    pr: "written (write_prologue sz reg ctx writer compute_sequence) = written writer @ es"
    and pb: "bodies_of_log es = []" and ph: "node_headers_of_log es = []"
    by blast
  have ww: "written w = written writer @ es @ concat (map2 body_and_padding ?B ?S)
              @ [\<lparr> at = node_headers_pos_of sz reg ctx writer compute_sequence,
                    len = sizeof_node_header sz * length ?hs, what = Node_headers_item ?hs \<rparr>]
              @ \<lparr> at = position ?wr, len = sizeof_memory_page_table, what = Page_table_item table \<rparr>
              # map (\<lambda>i. \<lparr> at = position ?wr + sizeof_memory_page_table + sizeof_memory_page * i,
                         len = sizeof_memory_page, what = Page_item (pages ! i) \<rparr>)
                  [0..<length pages]"
    unfolding w using lw pr by (simp add: set_position_def write_bytes_def)
  have a: "bodies_of_log (written w) = bodies_of_log (written writer) @ ?B"
    unfolding ww
    by (simp add: bodies_of_log_append pb bodies_of_log_spans length_body_spans bodies_of_log_pages)
  have b: "node_headers_of_log (written w) = node_headers_of_log (written writer) @ [?hs]"
    unfolding ww
    by (simp add: node_headers_of_log_append ph node_headers_of_log_spans node_headers_of_log_pages)
  have c: "map opcode ?hs = map body_opcode ?B"
    by (rule map_opcode_spans) (simp add: length_body_spans)
  show ?thesis using a b c by blast
qed

lemma gencode_drop_disabled:
  assumes d: "runtime_opcode d \<in> g_disabled_emitters reg"
    and m: "runtime_opcode d \<notin> {op_input_node, op_output_node, op_constant}"
  shows "gencode ndebug sz reg ctx writer (xs @ d # ys) = gencode ndebug sz reg ctx writer (xs @ ys)"
proof -
  have r: "runtime_nodes_of reg (xs @ d # ys) = runtime_nodes_of reg (xs @ ys)"
    using d by (simp add: runtime_nodes_of_def)
  have i: "inputs_of (xs @ d # ys) = inputs_of (xs @ ys)"
    using m by (simp add: inputs_of_def)
  have out: "outputs_of (xs @ d # ys) = outputs_of (xs @ ys)"
    using m by (simp add: outputs_of_def)
  have h: "make_model_header reg ctx (xs @ d # ys) = make_model_header reg ctx (xs @ ys)"
    unfolding make_model_header_def r i out ..
  have p: "write_prologue sz reg ctx writer (xs @ d # ys) = write_prologue sz reg ctx writer (xs @ ys)"
    unfolding write_prologue_def h i out ..
  show ?thesis unfolding gencode_def r h p ..
qed

lemmas gencode_eval =
  gencode_def example_sizes_def example_registry_def example_context_def empty_writer_def
  mk_node_def example_emitter_def null_emitter_def
  runtime_nodes_of_def inputs_of_def outputs_of_def make_model_header_def write_prologue_def
  page_bytes_of_def KM_MAX_PAGES_def KM_NODE_PAGING_def sizeof_memory_page_def
  sizeof_memory_page_table_def call_emitter_def serialize_def write_bytes_def
  align_position_def set_position_def write_pages_def plan_pages_def collect_pages_def
  write_pages_loop.simps loop_body_def page_table_of_def working_size_of_def
  TARGET_PAGE_SIZE_def Let_def body_region_start_def node_headers_pos_of_def

section \<open>The page planner: results\<close>

text \<open>
  C2. For every non-empty sequence of node headers (of fewer than \<open>2 ^ 32\<close> headers,
  the range of the loop counter), the pages vector that \<^verbatim>\<open>write_pages\<close> builds
  partitions the indices \<open>0\<close> to \<open>N - 1\<close>: the first page begins at index 0, the last
  page ends at index \<open>N - 1\<close>, every page has \<open>begin \<le> end\<close>, each page ends one index
  before the next begins, and so every index lies in exactly one page. The page indices
  count up from 0, the \<open>size_bytes\<close> of a page is the sum of the \<open>body_size\<close> of the
  headers it covers, the first page has offset 0, and every later page's offset is the
  offset of the page before it plus that page's size. Indices, sizes and offsets are read
  as numbers: none of the sums wraps.
\<close>

theorem pages_partition_headers:
  assumes "headers \<noteq> []" and "length headers < 2 ^ 32"
  shows "\<exists>pages. collect_pages headers = Some (Inr pages) \<and> pages \<noteq> []
           \<and> unat (page_begin (hd pages)) = 0
           \<and> unat (page_end (last pages)) = length headers - 1
           \<and> (\<forall>i < length pages. unat (page_begin (pages ! i)) \<le> unat (page_end (pages ! i)))
           \<and> (\<forall>i. Suc i < length pages \<longrightarrow>
                  unat (page_end (pages ! i)) + 1 = unat (page_begin (pages ! Suc i)))
           \<and> (\<forall>j < length headers. \<exists>!i. i < length pages
                  \<and> unat (page_begin (pages ! i)) \<le> j \<and> j \<le> unat (page_end (pages ! i)))
           \<and> (\<forall>i < length pages. unat (page_index (pages ! i)) = i)
           \<and> (\<forall>i < length pages. unat (size_bytes (pages ! i))
                  = bodies_size headers (unat (page_begin (pages ! i))) (unat (page_end (pages ! i))))
           \<and> offset_bytes (hd pages) = 0
           \<and> (\<forall>i. Suc i < length pages \<longrightarrow>
                  unat (offset_bytes (pages ! Suc i))
                    = unat (offset_bytes (pages ! i)) + unat (size_bytes (pages ! i)))"
proof -
  from collect_pages_inv[OF assms] obtain pages where
    cp: "collect_pages headers = Some (Inr pages)" and inv: "pages_inv headers (length headers) pages"
    by blast
  have ne: "pages \<noteq> []" using inv by (simp add: pages_inv_def)
  have b0: "unat (page_begin (hd pages)) = 0" using inv ne by (simp add: pages_inv_def hd_conv_nth)
  have el: "unat (page_end (last pages)) = length headers - 1"
    using inv by (auto simp add: pages_inv_def)
  have be: "\<forall>i < length pages. unat (page_begin (pages ! i)) \<le> unat (page_end (pages ! i))"
    using pages_inv_be[OF inv] by blast
  have lk: "\<forall>i. Suc i < length pages \<longrightarrow>
              unat (page_end (pages ! i)) + 1 = unat (page_begin (pages ! Suc i))"
    using pages_inv_link[OF inv] by simp
  have un: "\<forall>j < length headers. \<exists>!i. i < length pages
              \<and> unat (page_begin (pages ! i)) \<le> j \<and> j \<le> unat (page_end (pages ! i))"
  proof (intro allI impI)
    fix j assume j: "j < length headers"
    have "length pages - 1 < length pages" using ne by simp
    moreover have "j \<le> unat (page_end (pages ! (length pages - 1)))"
      using el j ne by (simp add: last_conv_nth)
    ultimately obtain k where "k \<le> length pages - 1"
      "unat (page_begin (pages ! k)) \<le> j \<and> j \<le> unat (page_end (pages ! k))"
      using pages_inv_cover[OF inv] by blast
    then have ex: "k < length pages \<and> unat (page_begin (pages ! k)) \<le> j \<and> j \<le> unat (page_end (pages ! k))"
      using ne by (cases pages) simp_all
    show "\<exists>!i. i < length pages
              \<and> unat (page_begin (pages ! i)) \<le> j \<and> j \<le> unat (page_end (pages ! i))"
    proof (rule ex1I[of _ k])
      show "k < length pages \<and> unat (page_begin (pages ! k)) \<le> j \<and> j \<le> unat (page_end (pages ! k))"
        by (rule ex)
    next
      fix i assume "i < length pages \<and> unat (page_begin (pages ! i)) \<le> j \<and> j \<le> unat (page_end (pages ! i))"
      then show "i = k" using pages_inv_unique[OF inv] ex by blast
    qed
  qed
  have ix: "\<forall>i < length pages. unat (page_index (pages ! i)) = i"
  proof (intro allI impI)
    fix i assume i: "i < length pages"
    have ok: "page_ok headers i (pages ! i)" by (rule pages_inv_nth[OF inv i])
    have "i \<le> unat (page_begin (pages ! i))" by (rule pages_inv_index_le[OF inv i])
    also have "\<dots> \<le> unat (page_end (pages ! i))" using ok by (simp add: page_ok_def)
    also have "\<dots> < length headers" using ok by (simp add: page_ok_def)
    finally have "i < 2 ^ 32" using assms(2) by simp
    then show "unat (page_index (pages ! i)) = i" using ok by (simp add: page_ok_def un32)
  qed
  have sz: "\<forall>i < length pages. unat (size_bytes (pages ! i))
                  = bodies_size headers (unat (page_begin (pages ! i))) (unat (page_end (pages ! i)))"
    using pages_inv_nth[OF inv] by (simp add: page_ok_def)
  have "unat (offset_bytes (pages ! 0)) = 0"
    using pages_inv_nth[OF inv, of 0] ne inv by (simp add: page_ok_def pages_inv_def)
  then have o0: "offset_bytes (hd pages) = 0" using ne by (simp add: hd_conv_nth unat_eq_0)
  have os: "\<forall>i. Suc i < length pages \<longrightarrow>
                  unat (offset_bytes (pages ! Suc i))
                    = unat (offset_bytes (pages ! i)) + unat (size_bytes (pages ! i))"
  proof (intro allI impI)
    fix i assume i: "Suc i < length pages"
    then have i': "i < length pages" by simp
    have "unat (offset_bytes (pages ! Suc i))
            = sum_list (map (\<lambda>h. unat (body_size h)) (take (unat (page_begin (pages ! Suc i))) headers))"
      using pages_inv_nth[OF inv i] by (simp add: page_ok_def)
    also have "\<dots> = sum_list (map (\<lambda>h. unat (body_size h)) (take (Suc (unat (page_end (pages ! i)))) headers))"
      using pages_inv_link[OF inv i] by simp
    also have "\<dots> = unat (offset_bytes (pages ! i)) + unat (size_bytes (pages ! i))"
      using page_ok_offset_size[OF pages_inv_nth[OF inv i']] by simp
    finally show "unat (offset_bytes (pages ! Suc i))
                    = unat (offset_bytes (pages ! i)) + unat (size_bytes (pages ! i))" .
  qed
  show ?thesis using cp ne b0 el be lk un ix sz o0 os by blast
qed

theorem pages_partition_headers_witness:
  "example_headers \<noteq> [] \<and> length example_headers < 2 ^ 32
   \<and> collect_pages example_headers
       = Some (Inr [\<lparr> page_index = 0, page_type = persistent, page_begin = 0, page_end = 0,
                       offset_bytes = 0, size_bytes = 2000000 \<rparr>,
                     \<lparr> page_index = 1, page_type = swap, page_begin = 1, page_end = 2,
                       offset_bytes = 2000000, size_bytes = 1000005 \<rparr>,
                     \<lparr> page_index = 2, page_type = swap, page_begin = 3, page_end = 3,
                       offset_bytes = 3000005, size_bytes = 2299990 \<rparr>])
   \<and> (\<exists>pages. collect_pages example_headers = Some (Inr pages) \<and> pages \<noteq> []
           \<and> unat (page_begin (hd pages)) = 0
           \<and> unat (page_end (last pages)) = length example_headers - 1
           \<and> (\<forall>i < length pages. unat (page_begin (pages ! i)) \<le> unat (page_end (pages ! i)))
           \<and> (\<forall>i. Suc i < length pages \<longrightarrow>
                  unat (page_end (pages ! i)) + 1 = unat (page_begin (pages ! Suc i)))
           \<and> (\<forall>j < length example_headers. \<exists>!i. i < length pages
                  \<and> unat (page_begin (pages ! i)) \<le> j \<and> j \<le> unat (page_end (pages ! i)))
           \<and> (\<forall>i < length pages. unat (page_index (pages ! i)) = i)
           \<and> (\<forall>i < length pages. unat (size_bytes (pages ! i))
                  = bodies_size example_headers (unat (page_begin (pages ! i))) (unat (page_end (pages ! i))))
           \<and> offset_bytes (hd pages) = 0
           \<and> (\<forall>i. Suc i < length pages \<longrightarrow>
                  unat (offset_bytes (pages ! Suc i))
                    = unat (offset_bytes (pages ! i)) + unat (size_bytes (pages ! i))))"
proof -
  have h1: "example_headers \<noteq> []" by (simp add: example_headers_def)
  have h2: "length example_headers < 2 ^ 32" by (simp add: example_headers_def)
  have ev: "collect_pages example_headers
       = Some (Inr [\<lparr> page_index = 0, page_type = persistent, page_begin = 0, page_end = 0,
                       offset_bytes = 0, size_bytes = 2000000 \<rparr>,
                     \<lparr> page_index = 1, page_type = swap, page_begin = 1, page_end = 2,
                       offset_bytes = 2000000, size_bytes = 1000005 \<rparr>,
                     \<lparr> page_index = 2, page_type = swap, page_begin = 3, page_end = 3,
                       offset_bytes = 3000005, size_bytes = 2299990 \<rparr>])"
    by (rule example_pages)
  show ?thesis by (rule conjI[OF h1 conjI[OF h2 conjI[OF ev pages_partition_headers[OF h1 h2]]]])
qed

text \<open>
  C3. For every non-empty sequence of node headers, the first page of the pages vector has
  type \<open>persistent\<close> and every later page has type \<open>swap\<close>, whatever the sizes.
\<close>

theorem first_page_persistent_rest_swap:
  assumes "headers \<noteq> []" and "length headers < 2 ^ 32"
  shows "\<exists>pages. collect_pages headers = Some (Inr pages) \<and> pages \<noteq> []
           \<and> page_type (hd pages) = persistent
           \<and> (\<forall>p \<in> set (tl pages). page_type p = swap)"
proof -
  from collect_pages_inv[OF assms] obtain pages where
    cp: "collect_pages headers = Some (Inr pages)" and inv: "pages_inv headers (length headers) pages"
    by blast
  have ne: "pages \<noteq> []" using inv by (simp add: pages_inv_def)
  have "page_ok headers 0 (pages ! 0)" using pages_inv_nth[OF inv, of 0] ne by simp
  then have first: "page_type (hd pages) = persistent"
    using ne by (simp add: page_ok_def hd_conv_nth)
  have rest: "\<forall>p \<in> set (tl pages). page_type p = swap"
  proof
    fix p assume "p \<in> set (tl pages)"
    then obtain i where i: "i < length (tl pages)" and p: "p = tl pages ! i"
      by (auto simp add: in_set_conv_nth)
    then have "Suc i < length pages" by simp
    then have "page_ok headers (Suc i) (pages ! Suc i)" by (rule pages_inv_nth[OF inv])
    then show "page_type p = swap" using p i by (simp add: page_ok_def nth_tl)
  qed
  show ?thesis using cp ne first rest by blast
qed

theorem first_page_persistent_rest_swap_witness:
  "example_headers \<noteq> [] \<and> length example_headers < 2 ^ 32
   \<and> collect_pages example_headers
       = Some (Inr [\<lparr> page_index = 0, page_type = persistent, page_begin = 0, page_end = 0,
                       offset_bytes = 0, size_bytes = 2000000 \<rparr>,
                     \<lparr> page_index = 1, page_type = swap, page_begin = 1, page_end = 2,
                       offset_bytes = 2000000, size_bytes = 1000005 \<rparr>,
                     \<lparr> page_index = 2, page_type = swap, page_begin = 3, page_end = 3,
                       offset_bytes = 3000005, size_bytes = 2299990 \<rparr>])
   \<and> (\<exists>pages. collect_pages example_headers = Some (Inr pages) \<and> pages \<noteq> []
           \<and> page_type (hd pages) = persistent
           \<and> (\<forall>p \<in> set (tl pages). page_type p = swap))"
proof -
  have h1: "example_headers \<noteq> []" by (simp add: example_headers_def)
  have h2: "length example_headers < 2 ^ 32" by (simp add: example_headers_def)
  have ev: "collect_pages example_headers
       = Some (Inr [\<lparr> page_index = 0, page_type = persistent, page_begin = 0, page_end = 0,
                       offset_bytes = 0, size_bytes = 2000000 \<rparr>,
                     \<lparr> page_index = 1, page_type = swap, page_begin = 1, page_end = 2,
                       offset_bytes = 2000000, size_bytes = 1000005 \<rparr>,
                     \<lparr> page_index = 2, page_type = swap, page_begin = 3, page_end = 3,
                       offset_bytes = 3000005, size_bytes = 2299990 \<rparr>])"
    by (rule example_pages)
  show ?thesis by (rule conjI[OF h1 conjI[OF h2 conjI[OF ev first_page_persistent_rest_swap[OF h1 h2]]]])
qed

text \<open>
  C4. For every non-empty sequence of node headers, a page whose \<open>size_bytes\<close> exceeds
  \<open>TARGET_PAGE_SIZE\<close> covers exactly one node (\<open>begin = end\<close>), and that node's own
  \<open>body_size\<close> exceeds \<open>TARGET_PAGE_SIZE\<close>; a page that covers two nodes or more has
  \<open>size_bytes \<le> TARGET_PAGE_SIZE\<close>.
\<close>

theorem oversized_pages_are_single:
  assumes "headers \<noteq> []" and "length headers < 2 ^ 32"
  shows "\<exists>pages. collect_pages headers = Some (Inr pages)
           \<and> (\<forall>p \<in> set pages. unat (size_bytes p) > TARGET_PAGE_SIZE \<longrightarrow>
                  page_begin p = page_end p
                  \<and> unat (page_begin p) < length headers
                  \<and> unat (body_size (headers ! unat (page_begin p))) > TARGET_PAGE_SIZE)
           \<and> (\<forall>p \<in> set pages. unat (page_begin p) < unat (page_end p) \<longrightarrow>
                  unat (size_bytes p) \<le> TARGET_PAGE_SIZE)"
proof -
  from collect_pages_inv[OF assms] obtain pages where
    cp: "collect_pages headers = Some (Inr pages)" and inv: "pages_inv headers (length headers) pages"
    by blast
  have ok: "\<And>p. p \<in> set pages \<Longrightarrow> \<exists>i. page_ok headers i p"
    using pages_inv_nth[OF inv] by (auto simp add: in_set_conv_nth)
  have a: "\<forall>p \<in> set pages. unat (size_bytes p) > TARGET_PAGE_SIZE \<longrightarrow>
                  page_begin p = page_end p
                  \<and> unat (page_begin p) < length headers
                  \<and> unat (body_size (headers ! unat (page_begin p))) > TARGET_PAGE_SIZE"
  proof (intro ballI impI)
    fix p assume p: "p \<in> set pages" and big: "unat (size_bytes p) > TARGET_PAGE_SIZE"
    from ok[OF p] obtain i where pk: "page_ok headers i p" by blast
    then have "\<not> unat (page_begin p) < unat (page_end p)" using big by (auto simp add: page_ok_def)
    moreover have "unat (page_begin p) \<le> unat (page_end p)" using pk by (simp add: page_ok_def)
    ultimately have eq: "unat (page_begin p) = unat (page_end p)" by simp
    then have weq: "page_begin p = page_end p" by (simp add: word_unat_eq_iff)
    have lt: "unat (page_begin p) < length headers" using pk eq by (simp add: page_ok_def)
    have "unat (size_bytes p) = unat (body_size (headers ! unat (page_begin p)))"
      using pk eq lt by (simp add: page_ok_def bodies_size_single)
    then show "page_begin p = page_end p
                  \<and> unat (page_begin p) < length headers
                  \<and> unat (body_size (headers ! unat (page_begin p))) > TARGET_PAGE_SIZE"
      using weq lt big by simp
  qed
  have b: "\<forall>p \<in> set pages. unat (page_begin p) < unat (page_end p) \<longrightarrow>
                  unat (size_bytes p) \<le> TARGET_PAGE_SIZE"
  proof (intro ballI impI)
    fix p assume p: "p \<in> set pages" and m: "unat (page_begin p) < unat (page_end p)"
    from ok[OF p] obtain i where pk: "page_ok headers i p" by blast
    then show "unat (size_bytes p) \<le> TARGET_PAGE_SIZE" using m by (simp add: page_ok_def)
  qed
  show ?thesis using cp a b by blast
qed

theorem oversized_pages_are_single_witness:
  "oversized_headers \<noteq> [] \<and> length oversized_headers < 2 ^ 32
   \<and> collect_pages oversized_headers
       = Some (Inr [\<lparr> page_index = 0, page_type = persistent, page_begin = 0, page_end = 0,
                       offset_bytes = 0, size_bytes = 5000000 \<rparr>,
                     \<lparr> page_index = 1, page_type = swap, page_begin = 1, page_end = 2,
                       offset_bytes = 5000000, size_bytes = 7 \<rparr>])
   \<and> (\<exists>pages. collect_pages oversized_headers = Some (Inr pages)
           \<and> (\<forall>p \<in> set pages. unat (size_bytes p) > TARGET_PAGE_SIZE \<longrightarrow>
                  page_begin p = page_end p
                  \<and> unat (page_begin p) < length oversized_headers
                  \<and> unat (body_size (oversized_headers ! unat (page_begin p))) > TARGET_PAGE_SIZE)
           \<and> (\<forall>p \<in> set pages. unat (page_begin p) < unat (page_end p) \<longrightarrow>
                  unat (size_bytes p) \<le> TARGET_PAGE_SIZE))"
proof -
  have h1: "oversized_headers \<noteq> []" by (simp add: oversized_headers_def)
  have h2: "length oversized_headers < 2 ^ 32" by (simp add: oversized_headers_def)
  have ev: "collect_pages oversized_headers
       = Some (Inr [\<lparr> page_index = 0, page_type = persistent, page_begin = 0, page_end = 0,
                       offset_bytes = 0, size_bytes = 5000000 \<rparr>,
                     \<lparr> page_index = 1, page_type = swap, page_begin = 1, page_end = 2,
                       offset_bytes = 5000000, size_bytes = 7 \<rparr>])"
    by (simp add: oversized_headers_def planner_eval)
  show ?thesis by (rule conjI[OF h1 conjI[OF h2 conjI[OF ev oversized_pages_are_single[OF h1 h2]]]])
qed

text \<open>
  C5. For every non-empty sequence of node headers, the \<open>body_buffer_size\<close> of the page
  table is the sum of the \<open>size_bytes\<close> of the persistent pages plus the largest
  \<open>size_bytes\<close> among the swap pages, 0 where there is no swap page. For ten headers of
  \<open>body_size\<close> 1,000,000 each the planner yields 5 pages and a \<open>body_buffer_size\<close> of
  4,000,000.
\<close>

theorem body_buffer_size_sum_and_max:
  assumes "headers \<noteq> []" and "length headers < 2 ^ 32"
  shows "(\<exists>pages. collect_pages headers = Some (Inr pages)
            \<and> (length pages \<le> KM_MAX_PAGES \<longrightarrow>
                  plan_pages ndebug headers = Some (Inr (page_table_of pages, pages)))
            \<and> unat (body_buffer_size (page_table_of pages))
                = sum_list (map (\<lambda>p. unat (size_bytes p))
                     (filter (\<lambda>p. page_type p = persistent) pages))
                  + Max (set (0 # map (\<lambda>p. unat (size_bytes p))
                     (filter (\<lambda>p. page_type p = swap) pages))))
         \<and> (\<exists>table pages.
              plan_pages ndebug (replicate 10 \<lparr> opcode = opc, body_size = 1000000 \<rparr>)
                = Some (Inr (table, pages))
              \<and> length pages = 5 \<and> unat (body_buffer_size table) = 4000000)"
proof -
  from collect_pages_inv[OF assms] obtain pages where
    cp: "collect_pages headers = Some (Inr pages)" and inv: "pages_inv headers (length headers) pages"
    by blast
  have tb: "length pages \<le> KM_MAX_PAGES \<longrightarrow>
              plan_pages ndebug headers = Some (Inr (page_table_of pages, pages))"
    using cp by (simp add: plan_pages_def)
  have bs: "unat (body_buffer_size (page_table_of pages))
                = sum_list (map (\<lambda>p. unat (size_bytes p))
                     (filter (\<lambda>p. page_type p = persistent) pages))
                  + Max (set (0 # map (\<lambda>p. unat (size_bytes p))
                     (filter (\<lambda>p. page_type p = swap) pages)))"
    using working_size_unat[OF inv] by (simp add: page_table_of_def)
  have r10: "\<And>x :: node_header. replicate 10 x = [x, x, x, x, x, x, x, x, x, x]"
    by (simp add: eval_nat_numeral)
  have ex: "\<exists>table pages.
              plan_pages ndebug (replicate 10 \<lparr> opcode = opc, body_size = 1000000 \<rparr>)
                = Some (Inr (table, pages))
              \<and> length pages = 5 \<and> unat (body_buffer_size table) = 4000000"
    by (simp add: plan_pages_def collect_pages_def write_pages_loop.simps loop_body_def
        TARGET_PAGE_SIZE_def KM_MAX_PAGES_def page_table_of_def working_size_of_def r10)
  show ?thesis using cp tb bs ex by blast
qed

theorem body_buffer_size_sum_and_max_witness:
  "example_headers \<noteq> [] \<and> length example_headers < 2 ^ 32
   \<and> collect_pages example_headers
       = Some (Inr [\<lparr> page_index = 0, page_type = persistent, page_begin = 0, page_end = 0,
                       offset_bytes = 0, size_bytes = 2000000 \<rparr>,
                     \<lparr> page_index = 1, page_type = swap, page_begin = 1, page_end = 2,
                       offset_bytes = 2000000, size_bytes = 1000005 \<rparr>,
                     \<lparr> page_index = 2, page_type = swap, page_begin = 3, page_end = 3,
                       offset_bytes = 3000005, size_bytes = 2299990 \<rparr>])
   \<and> ((\<exists>pages. collect_pages example_headers = Some (Inr pages)
            \<and> (length pages \<le> KM_MAX_PAGES \<longrightarrow>
                  plan_pages False example_headers = Some (Inr (page_table_of pages, pages)))
            \<and> unat (body_buffer_size (page_table_of pages))
                = sum_list (map (\<lambda>p. unat (size_bytes p))
                     (filter (\<lambda>p. page_type p = persistent) pages))
                  + Max (set (0 # map (\<lambda>p. unat (size_bytes p))
                     (filter (\<lambda>p. page_type p = swap) pages))))
         \<and> (\<exists>table pages.
              plan_pages False (replicate 10 \<lparr> opcode = op_other 0, body_size = 1000000 \<rparr>)
                = Some (Inr (table, pages))
              \<and> length pages = 5 \<and> unat (body_buffer_size table) = 4000000))"
proof -
  have h1: "example_headers \<noteq> []" by (simp add: example_headers_def)
  have h2: "length example_headers < 2 ^ 32" by (simp add: example_headers_def)
  have ev: "collect_pages example_headers
       = Some (Inr [\<lparr> page_index = 0, page_type = persistent, page_begin = 0, page_end = 0,
                       offset_bytes = 0, size_bytes = 2000000 \<rparr>,
                     \<lparr> page_index = 1, page_type = swap, page_begin = 1, page_end = 2,
                       offset_bytes = 2000000, size_bytes = 1000005 \<rparr>,
                     \<lparr> page_index = 2, page_type = swap, page_begin = 3, page_end = 3,
                       offset_bytes = 3000005, size_bytes = 2299990 \<rparr>])"
    by (rule example_pages)
  show ?thesis by (rule conjI[OF h1 conjI[OF h2 conjI[OF ev body_buffer_size_sum_and_max[OF h1 h2, where opc = "op_other 0" and ndebug = False]]]])
qed

text \<open>
  What \<^verbatim>\<open>write_pages\<close> does with the pages vector, by build. With the assertion
  compiled in, a vector longer than \<^verbatim>\<open>KM_MAX_PAGES\<close> aborts and nothing is written. In
  every other case the table and then every page are written at the writer's position, the
  table has \<open>num_pages\<close> the number of pages cast to 32 bits and \<open>max_pages\<close> 8; within
  the cap, \<open>num_pages \<le> max_pages\<close>.
\<close>

lemma write_pages_by_build:
  assumes "headers \<noteq> []" and "length headers < 2 ^ 32"
  shows "\<exists>pages. collect_pages headers = Some (Inr pages)
           \<and> (\<not> ndebug \<and> KM_MAX_PAGES < length pages \<longrightarrow>
                  write_pages ndebug writer headers runtime_nodes = Some (Inl Max_pages_exceeded))
           \<and> (ndebug \<or> length pages \<le> KM_MAX_PAGES \<longrightarrow>
                  (\<exists>w. write_pages ndebug writer headers runtime_nodes = Some (Inr w)
                     \<and> written w = written writer
                         @ \<lparr> at = position writer, len = sizeof_memory_page_table,
                             what = Page_table_item (page_table_of pages) \<rparr>
                         # map (\<lambda>i. \<lparr> at = position writer + sizeof_memory_page_table
                                            + sizeof_memory_page * i,
                                       len = sizeof_memory_page,
                                       what = Page_item (pages ! i) \<rparr>) [0..<length pages]))
           \<and> num_pages (page_table_of pages) = of_nat (length pages)
           \<and> unat (max_pages (page_table_of pages)) = KM_MAX_PAGES
           \<and> (length pages \<le> KM_MAX_PAGES \<longrightarrow>
                  unat (num_pages (page_table_of pages)) = length pages
                  \<and> num_pages (page_table_of pages) \<le> max_pages (page_table_of pages))"
proof -
  from collect_pages_inv[OF assms] obtain pages where
    cp: "collect_pages headers = Some (Inr pages)" by blast
  have over: "\<not> ndebug \<and> KM_MAX_PAGES < length pages \<longrightarrow>
                write_pages ndebug writer headers runtime_nodes = Some (Inl Max_pages_exceeded)"
    using cp by (simp add: write_pages_def plan_pages_def)
  have wrt: "ndebug \<or> length pages \<le> KM_MAX_PAGES \<longrightarrow>
                  (\<exists>w. write_pages ndebug writer headers runtime_nodes = Some (Inr w)
                     \<and> written w = written writer
                         @ \<lparr> at = position writer, len = sizeof_memory_page_table,
                             what = Page_table_item (page_table_of pages) \<rparr>
                         # map (\<lambda>i. \<lparr> at = position writer + sizeof_memory_page_table
                                            + sizeof_memory_page * i,
                                       len = sizeof_memory_page,
                                       what = Page_item (pages ! i) \<rparr>) [0..<length pages])"
  proof
    assume b: "ndebug \<or> length pages \<le> KM_MAX_PAGES"
    have wr: "write_pages ndebug writer headers runtime_nodes
                = Some (Inr (fold (\<lambda>page w. write_bytes sizeof_memory_page (Page_item page) w) pages
                       (write_bytes sizeof_memory_page_table (Page_table_item (page_table_of pages)) writer)))"
      using cp b by (auto simp add: write_pages_def plan_pages_def)
    show "\<exists>w. write_pages ndebug writer headers runtime_nodes = Some (Inr w)
                     \<and> written w = written writer
                         @ \<lparr> at = position writer, len = sizeof_memory_page_table,
                             what = Page_table_item (page_table_of pages) \<rparr>
                         # map (\<lambda>i. \<lparr> at = position writer + sizeof_memory_page_table
                                            + sizeof_memory_page * i,
                                       len = sizeof_memory_page,
                                       what = Page_item (pages ! i) \<rparr>) [0..<length pages]"
      unfolding wr fold_write_pages by (simp add: write_bytes_def)
  qed
  have np: "num_pages (page_table_of pages) = of_nat (length pages)"
    by (simp add: page_table_of_def)
  have mp: "unat (max_pages (page_table_of pages)) = KM_MAX_PAGES"
    by (simp add: page_table_of_def KM_MAX_PAGES_def)
  have cap: "length pages \<le> KM_MAX_PAGES \<longrightarrow>
                  unat (num_pages (page_table_of pages)) = length pages
                  \<and> num_pages (page_table_of pages) \<le> max_pages (page_table_of pages)"
  proof
    assume le: "length pages \<le> KM_MAX_PAGES"
    then have "length pages < 2 ^ 32" by (simp add: KM_MAX_PAGES_def)
    then have "unat (of_nat (length pages) :: 32 word) = length pages" by (rule un32)
    then show "unat (num_pages (page_table_of pages)) = length pages
                  \<and> num_pages (page_table_of pages) \<le> max_pages (page_table_of pages)"
      using le mp by (simp add: np word_le_nat_alt)
  qed
  show ?thesis using cp over wrt np mp cap by blast
qed

text \<open>
  C6, on the code as it is. The claim asks that a sequence of node headers planned into
  more than \<^verbatim>\<open>KM_MAX_PAGES\<close> pages be rejected before any page table is written, and
  never written with \<open>num_pages > max_pages\<close>. The only guard is the \<^verbatim>\<open>assert\<close> of
  line 115. For nine headers of 2,000,000 bytes each the planner builds nine pages: with
  the assertion compiled in \<^verbatim>\<open>write_pages\<close> aborts, as the claim says; in a build with
  \<^verbatim>\<open>NDEBUG\<close> it writes a table with \<open>num_pages = 9\<close> and \<open>max_pages = 8\<close>, followed by
  the nine pages.
\<close>

theorem max_pages_guarded_by_assert_only:
  "write_pages False empty_writer nine_headers [] = Some (Inl Max_pages_exceeded)
   \<and> plan_pages True nine_headers
       = Some (Inr (\<lparr> num_pages = 9, max_pages = 8, body_buffer_size = 4000000 \<rparr>,
            [\<lparr> page_index = 0, page_type = persistent, page_begin = 0, page_end = 0,
                offset_bytes = 0, size_bytes = 2000000 \<rparr>,
             \<lparr> page_index = 1, page_type = swap, page_begin = 1, page_end = 1,
                offset_bytes = 2000000, size_bytes = 2000000 \<rparr>,
             \<lparr> page_index = 2, page_type = swap, page_begin = 2, page_end = 2,
                offset_bytes = 4000000, size_bytes = 2000000 \<rparr>,
             \<lparr> page_index = 3, page_type = swap, page_begin = 3, page_end = 3,
                offset_bytes = 6000000, size_bytes = 2000000 \<rparr>,
             \<lparr> page_index = 4, page_type = swap, page_begin = 4, page_end = 4,
                offset_bytes = 8000000, size_bytes = 2000000 \<rparr>,
             \<lparr> page_index = 5, page_type = swap, page_begin = 5, page_end = 5,
                offset_bytes = 10000000, size_bytes = 2000000 \<rparr>,
             \<lparr> page_index = 6, page_type = swap, page_begin = 6, page_end = 6,
                offset_bytes = 12000000, size_bytes = 2000000 \<rparr>,
             \<lparr> page_index = 7, page_type = swap, page_begin = 7, page_end = 7,
                offset_bytes = 14000000, size_bytes = 2000000 \<rparr>,
             \<lparr> page_index = 8, page_type = swap, page_begin = 8, page_end = 8,
                offset_bytes = 16000000, size_bytes = 2000000 \<rparr>]))
   \<and> (\<exists>w. write_pages True empty_writer nine_headers [] = Some (Inr w)
          \<and> position w = 304
          \<and> length (written w) = 10
          \<and> hd (written w)
              = \<lparr> at = 0, len = 16,
                  what = Page_table_item
                    \<lparr> num_pages = 9, max_pages = 8, body_buffer_size = 4000000 \<rparr> \<rparr>)"
proof -
  have r9: "\<And>x :: node_header. replicate 9 x = [x, x, x, x, x, x, x, x, x]"
    by (simp add: eval_nat_numeral)
  have a: "write_pages False empty_writer nine_headers [] = Some (Inl Max_pages_exceeded)"
    by (simp add: write_pages_def plan_pages_def nine_headers_def r9 planner_eval KM_MAX_PAGES_def)
  have b: "plan_pages True nine_headers
       = Some (Inr (\<lparr> num_pages = 9, max_pages = 8, body_buffer_size = 4000000 \<rparr>,
            [\<lparr> page_index = 0, page_type = persistent, page_begin = 0, page_end = 0,
                offset_bytes = 0, size_bytes = 2000000 \<rparr>,
             \<lparr> page_index = 1, page_type = swap, page_begin = 1, page_end = 1,
                offset_bytes = 2000000, size_bytes = 2000000 \<rparr>,
             \<lparr> page_index = 2, page_type = swap, page_begin = 2, page_end = 2,
                offset_bytes = 4000000, size_bytes = 2000000 \<rparr>,
             \<lparr> page_index = 3, page_type = swap, page_begin = 3, page_end = 3,
                offset_bytes = 6000000, size_bytes = 2000000 \<rparr>,
             \<lparr> page_index = 4, page_type = swap, page_begin = 4, page_end = 4,
                offset_bytes = 8000000, size_bytes = 2000000 \<rparr>,
             \<lparr> page_index = 5, page_type = swap, page_begin = 5, page_end = 5,
                offset_bytes = 10000000, size_bytes = 2000000 \<rparr>,
             \<lparr> page_index = 6, page_type = swap, page_begin = 6, page_end = 6,
                offset_bytes = 12000000, size_bytes = 2000000 \<rparr>,
             \<lparr> page_index = 7, page_type = swap, page_begin = 7, page_end = 7,
                offset_bytes = 14000000, size_bytes = 2000000 \<rparr>,
             \<lparr> page_index = 8, page_type = swap, page_begin = 8, page_end = 8,
                offset_bytes = 16000000, size_bytes = 2000000 \<rparr>]))"
    by (simp add: plan_pages_def nine_headers_def r9 planner_eval page_table_of_def
          working_size_of_def KM_MAX_PAGES_def)
  have c: "\<exists>w. write_pages True empty_writer nine_headers [] = Some (Inr w)
          \<and> position w = 304
          \<and> length (written w) = 10
          \<and> hd (written w)
              = \<lparr> at = 0, len = 16,
                  what = Page_table_item
                    \<lparr> num_pages = 9, max_pages = 8, body_buffer_size = 4000000 \<rparr> \<rparr>"
    by (simp add: write_pages_def b write_bytes_def empty_writer_def sizeof_memory_page_def
          sizeof_memory_page_table_def)
  show ?thesis by (rule conjI[OF a conjI[OF b c]])
qed

section \<open>The serializer: results\<close>

text \<open>
  C1, on the code as it is. The claim asks that the space skipped for the page table at
  line 219 be non-zero exactly when the paging flag is set. Line 217 tests the header
  flags against \<^verbatim>\<open>KM_MAX_PAGES\<close> (8) and not against the paging flag, so for every
  compute sequence the paging flag is set and the space skipped is 0: the first body
  starts right after the space of the node-header table. For one input node, one node with
  a body of 5 bytes and one output node, the first body starts at position 96 and the page
  table is then written at position 96 too, over the body. Had the flags held the value 8,
  256 bytes would have been skipped.
\<close>

theorem page_table_space_not_reserved:
  "flags (make_model_header reg ctx compute_sequence) AND KM_NODE_PAGING = KM_NODE_PAGING
   \<and> KM_NODE_PAGING \<noteq> 0
   \<and> page_bytes_of (flags (make_model_header reg ctx compute_sequence)) = 0
   \<and> body_region_start sz reg ctx writer compute_sequence
       = node_headers_pos_of sz reg ctx writer compute_sequence
         + sizeof_node_header sz * length (runtime_nodes_of reg compute_sequence)
   \<and> page_bytes_of (of_nat KM_MAX_PAGES) = 256
   \<and> gencode ndebug example_sizes example_registry example_context empty_writer
         [mk_node op_input_node 0, mk_node (op_other 1) 5, mk_node op_output_node 0]
       = Some (Inr \<lparr> position = 104,
            written =
              [\<lparr> at = 0, len = 40,
                  what = Model_header_item
                    \<lparr> flags = 2, constants = 0, main_mem = 0, nodes = 1, inputs = 1, outputs = 1 \<rparr> \<rparr>,
               \<lparr> at = 40, len = 16, what = Input_ranges_item [mk_node op_input_node 0] \<rparr>,
               \<lparr> at = 56, len = 16, what = Input_shapes_item [mk_node op_input_node 0] \<rparr>,
               \<lparr> at = 72, len = 16, what = Output_ranges_item [mk_node op_output_node 0] \<rparr>,
               \<lparr> at = 88, len = 0, what = Constants_item \<rparr>,
               \<lparr> at = 96, len = 5,
                  what = Body_item \<lparr> body_opcode = op_other 1, body_bytes = replicate 5 0 \<rparr> \<rparr>,
               \<lparr> at = 101, len = 3, what = Zero_padding_item \<rparr>,
               \<lparr> at = 88, len = 8,
                  what = Node_headers_item [\<lparr> opcode = op_other 1, body_size = 8 \<rparr>] \<rparr>,
               \<lparr> at = 96, len = 16,
                  what = Page_table_item
                    \<lparr> num_pages = 1, max_pages = 8, body_buffer_size = 8 \<rparr> \<rparr>,
               \<lparr> at = 112, len = 32,
                  what = Page_item
                    \<lparr> page_index = 0, page_type = persistent, page_begin = 0, page_end = 0,
                      offset_bytes = 0, size_bytes = 8 \<rparr> \<rparr>] \<rparr>)"
  by (simp add: gencode_eval)

text \<open>
  C7. A node whose opcode has a registered emitter gets what that emitter returns; a node
  whose opcode has no emitter and is not disabled makes \<open>call_emitter\<close>, and with it
  \<open>gencode\<close>, fail with \<open>Emitter_not_found\<close>; a node whose opcode has no emitter and is
  disabled yields no body. In \<open>gencode\<close> the nodes of a disabled opcode are left out of
  the runtime nodes before any emitter is called: the node count of the header is the
  length of the sequence less the number of disabled nodes, the bodies and the node
  headers of a finished output are those of the nodes that are not disabled, in order, and
  removing a disabled node that is none of the three markers from the sequence leaves the
  whole output as it was.
\<close>

theorem dispatch_and_disabled_nodes:
  "(\<forall>emitter. g_emitters reg (runtime_opcode node) = Some emitter \<longrightarrow>
       call_emitter reg node ctx = Inr (emitter node ctx))
   \<and> (g_emitters reg (runtime_opcode node) = None
        \<and> runtime_opcode node \<notin> g_disabled_emitters reg \<longrightarrow>
       call_emitter reg node ctx = Inl (Emitter_not_found (runtime_opcode node)))
   \<and> (g_emitters reg (runtime_opcode node) = None
        \<and> runtime_opcode node \<in> g_disabled_emitters reg \<longrightarrow>
       call_emitter reg node ctx = Inr None)
   \<and> ((\<exists>n \<in> set compute_sequence. runtime_opcode n \<notin> g_disabled_emitters reg
          \<and> g_emitters reg (runtime_opcode n) = None) \<longrightarrow>
       (\<exists>opc. gencode ndebug sz reg ctx writer compute_sequence = Some (Inl (Emitter_not_found opc))
          \<and> g_emitters reg opc = None \<and> opc \<notin> g_disabled_emitters reg))
   \<and> nodes (make_model_header reg ctx compute_sequence)
         + length (filter (\<lambda>n. runtime_opcode n \<in> g_disabled_emitters reg) compute_sequence)
       = length compute_sequence
   \<and> (\<forall>w. gencode ndebug sz reg ctx writer compute_sequence = Some (Inr w) \<longrightarrow>
         bodies_of_log (written w)
           = bodies_of_log (written writer)
             @ emitted_bodies reg ctx
                 (filter (\<lambda>n. runtime_opcode n \<notin> g_disabled_emitters reg) compute_sequence)
         \<and> (\<exists>hs. node_headers_of_log (written w) = node_headers_of_log (written writer) @ [hs]
                \<and> map opcode hs
                    = map body_opcode (emitted_bodies reg ctx
                        (filter (\<lambda>n. runtime_opcode n \<notin> g_disabled_emitters reg)
                           compute_sequence))))
   \<and> (runtime_opcode d \<in> g_disabled_emitters reg \<longrightarrow>
         runtime_nodes_of reg (xs @ d # ys) = runtime_nodes_of reg (xs @ ys)
         \<and> nodes (make_model_header reg ctx (xs @ d # ys))
             = nodes (make_model_header reg ctx (xs @ ys)))
   \<and> (runtime_opcode d \<notin> g_disabled_emitters reg \<longrightarrow>
         nodes (make_model_header reg ctx (xs @ d # ys))
           = nodes (make_model_header reg ctx (xs @ ys)) + 1)
   \<and> (runtime_opcode d \<in> g_disabled_emitters reg
        \<and> runtime_opcode d \<notin> {op_input_node, op_output_node, op_constant} \<longrightarrow>
         gencode ndebug sz reg ctx writer (xs @ d # ys) = gencode ndebug sz reg ctx writer (xs @ ys))"
proof -
  have c1: "\<forall>emitter. g_emitters reg (runtime_opcode node) = Some emitter \<longrightarrow>
              call_emitter reg node ctx = Inr (emitter node ctx)"
    by (simp add: call_emitter_def)
  have c2: "g_emitters reg (runtime_opcode node) = None
              \<and> runtime_opcode node \<notin> g_disabled_emitters reg \<longrightarrow>
            call_emitter reg node ctx = Inl (Emitter_not_found (runtime_opcode node))"
    by (simp add: call_emitter_def)
  have c3: "g_emitters reg (runtime_opcode node) = None
              \<and> runtime_opcode node \<in> g_disabled_emitters reg \<longrightarrow>
            call_emitter reg node ctx = Inr None"
    by (simp add: call_emitter_def)
  have c4: "(\<exists>n \<in> set compute_sequence. runtime_opcode n \<notin> g_disabled_emitters reg
               \<and> g_emitters reg (runtime_opcode n) = None) \<longrightarrow>
            (\<exists>opc. gencode ndebug sz reg ctx writer compute_sequence = Some (Inl (Emitter_not_found opc))
               \<and> g_emitters reg opc = None \<and> opc \<notin> g_disabled_emitters reg)"
  proof
    assume "\<exists>n \<in> set compute_sequence. runtime_opcode n \<notin> g_disabled_emitters reg
               \<and> g_emitters reg (runtime_opcode n) = None"
    then have "\<exists>n \<in> set (runtime_nodes_of reg compute_sequence).
                 g_emitters reg (runtime_opcode n) = None
                 \<and> runtime_opcode n \<notin> g_disabled_emitters reg"
      by (auto simp add: runtime_nodes_of_def)
    from write_bodies_fails[OF this, of ctx
        "set_position (body_region_start sz reg ctx writer compute_sequence)
           (write_prologue sz reg ctx writer compute_sequence)" "[]"]
    obtain opc where
      "write_bodies reg ctx (runtime_nodes_of reg compute_sequence)
         (set_position (body_region_start sz reg ctx writer compute_sequence)
            (write_prologue sz reg ctx writer compute_sequence)) []
       = Inl (Emitter_not_found opc)"
      and "g_emitters reg opc = None" and "opc \<notin> g_disabled_emitters reg"
      by blast
    then show "\<exists>opc. gencode ndebug sz reg ctx writer compute_sequence = Some (Inl (Emitter_not_found opc))
               \<and> g_emitters reg opc = None \<and> opc \<notin> g_disabled_emitters reg"
      unfolding gencode_unfold by simp
  qed
  have c5: "nodes (make_model_header reg ctx compute_sequence)
              + length (filter (\<lambda>n. runtime_opcode n \<in> g_disabled_emitters reg) compute_sequence)
            = length compute_sequence"
    using sum_length_filter_compl[of "\<lambda>n. runtime_opcode n \<in> g_disabled_emitters reg" compute_sequence]
    by (simp add: make_model_header_def runtime_nodes_of_def Let_def)
  have c6: "\<forall>w. gencode ndebug sz reg ctx writer compute_sequence = Some (Inr w) \<longrightarrow>
         bodies_of_log (written w)
           = bodies_of_log (written writer)
             @ emitted_bodies reg ctx
                 (filter (\<lambda>n. runtime_opcode n \<notin> g_disabled_emitters reg) compute_sequence)
         \<and> (\<exists>hs. node_headers_of_log (written w) = node_headers_of_log (written writer) @ [hs]
                \<and> map opcode hs
                    = map body_opcode (emitted_bodies reg ctx
                        (filter (\<lambda>n. runtime_opcode n \<notin> g_disabled_emitters reg)
                           compute_sequence)))"
    using gencode_success_log[of ndebug sz reg ctx writer compute_sequence]
    unfolding runtime_nodes_of_def by blast
  have c7: "runtime_opcode d \<in> g_disabled_emitters reg \<longrightarrow>
         runtime_nodes_of reg (xs @ d # ys) = runtime_nodes_of reg (xs @ ys)
         \<and> nodes (make_model_header reg ctx (xs @ d # ys))
             = nodes (make_model_header reg ctx (xs @ ys))"
    by (simp add: make_model_header_def runtime_nodes_of_def Let_def)
  have c8: "runtime_opcode d \<notin> g_disabled_emitters reg \<longrightarrow>
         nodes (make_model_header reg ctx (xs @ d # ys))
           = nodes (make_model_header reg ctx (xs @ ys)) + 1"
    by (simp add: make_model_header_def runtime_nodes_of_def Let_def)
  have c9: "runtime_opcode d \<in> g_disabled_emitters reg
        \<and> runtime_opcode d \<notin> {op_input_node, op_output_node, op_constant} \<longrightarrow>
         gencode ndebug sz reg ctx writer (xs @ d # ys) = gencode ndebug sz reg ctx writer (xs @ ys)"
    using gencode_drop_disabled[of d reg ndebug sz ctx writer xs ys] by blast
  show ?thesis
    by (rule conjI[OF c1 conjI[OF c2 conjI[OF c3 conjI[OF c4 conjI[OF c5 conjI[OF c6
          conjI[OF c7 conjI[OF c8 c9]]]]]]]])
qed

theorem dispatch_and_disabled_nodes_witness:
  "g_emitters example_registry (runtime_opcode (mk_node (op_other 1) 5)) = Some example_emitter
   \<and> call_emitter example_registry (mk_node (op_other 1) 5) example_context
       = Inr (example_emitter (mk_node (op_other 1) 5) example_context)
   \<and> (\<exists>n \<in> set [mk_node op_input_node 0, mk_node (op_other 1) 5, mk_node (op_other 4) 1].
         runtime_opcode n \<notin> g_disabled_emitters example_registry
         \<and> g_emitters example_registry (runtime_opcode n) = None)
   \<and> (\<exists>opc. gencode False example_sizes example_registry example_context empty_writer
                [mk_node op_input_node 0, mk_node (op_other 1) 5, mk_node (op_other 4) 1]
              = Some (Inl (Emitter_not_found opc)))
   \<and> nodes (make_model_header example_registry example_context
               [mk_node op_input_node 0, mk_node (op_other 1) 5, mk_node (op_other 4) 1])
         + 1 = 3
   \<and> runtime_opcode (mk_node (op_other 3) 9) \<in> g_disabled_emitters example_registry
   \<and> runtime_opcode (mk_node (op_other 3) 9) \<notin> {op_input_node, op_output_node, op_constant}
   \<and> gencode False example_sizes example_registry example_context empty_writer
         ([mk_node (op_other 1) 5] @ mk_node (op_other 3) 9 # [mk_node (op_other 1) 3])
       = gencode False example_sizes example_registry example_context empty_writer
           ([mk_node (op_other 1) 5] @ [mk_node (op_other 1) 3])"
proof -
  note T = dispatch_and_disabled_nodes[where ndebug = False and reg = example_registry
      and node = "mk_node (op_other 1) 5" and ctx = example_context and sz = example_sizes
      and writer = empty_writer
      and compute_sequence = "[mk_node op_input_node 0, mk_node (op_other 1) 5, mk_node (op_other 4) 1]"
      and d = "mk_node (op_other 3) 9" and xs = "[mk_node (op_other 1) 5]"
      and ys = "[mk_node (op_other 1) 3]"]
  have h1: "g_emitters example_registry (runtime_opcode (mk_node (op_other 1) 5)) = Some example_emitter"
    by (simp add: example_registry_def mk_node_def)
  have w1: "call_emitter example_registry (mk_node (op_other 1) 5) example_context
              = Inr (example_emitter (mk_node (op_other 1) 5) example_context)"
    using T h1 by blast
  have h2: "\<exists>n \<in> set [mk_node op_input_node 0, mk_node (op_other 1) 5, mk_node (op_other 4) 1].
         runtime_opcode n \<notin> g_disabled_emitters example_registry
         \<and> g_emitters example_registry (runtime_opcode n) = None"
    by (simp add: example_registry_def mk_node_def)
  have w2: "\<exists>opc. gencode False example_sizes example_registry example_context empty_writer
                [mk_node op_input_node 0, mk_node (op_other 1) 5, mk_node (op_other 4) 1]
              = Some (Inl (Emitter_not_found opc))"
    using T h2 by blast
  have "length (filter (\<lambda>n. runtime_opcode n \<in> g_disabled_emitters example_registry)
          [mk_node op_input_node 0, mk_node (op_other 1) 5, mk_node (op_other 4) 1]) = 1"
    by (simp add: example_registry_def mk_node_def)
  then have w3: "nodes (make_model_header example_registry example_context
               [mk_node op_input_node 0, mk_node (op_other 1) 5, mk_node (op_other 4) 1])
         + 1 = 3"
    using T by simp
  have h4: "runtime_opcode (mk_node (op_other 3) 9) \<in> g_disabled_emitters example_registry"
    by (simp add: example_registry_def mk_node_def)
  have h5: "runtime_opcode (mk_node (op_other 3) 9) \<notin> {op_input_node, op_output_node, op_constant}"
    by (simp add: mk_node_def)
  have w4: "gencode False example_sizes example_registry example_context empty_writer
         ([mk_node (op_other 1) 5] @ mk_node (op_other 3) 9 # [mk_node (op_other 1) 3])
       = gencode False example_sizes example_registry example_context empty_writer
           ([mk_node (op_other 1) 5] @ [mk_node (op_other 1) 3])"
    using T h4 h5 by blast
  show ?thesis
    by (rule conjI[OF h1 conjI[OF w1 conjI[OF h2 conjI[OF w2 conjI[OF w3 conjI[OF h4
          conjI[OF h5 w4]]]]]]])
qed

text \<open>
  C8, as stated, fails: a body after the first need not start at a multiple of 8 relative
  to the start of the body region. With a constant pool of 4 bytes the body region starts
  at position 60; the first body (5 bytes) is padded to position 72, where the second body
  starts, 12 bytes after the start of the region. The output is the same whether the
  assertion of \<^verbatim>\<open>write_pages\<close> is compiled in or not.
\<close>

theorem body_start_not_aligned_to_region:
  "gencode False example_sizes example_registry \<lparr> constant_usage = 4, memory_usage = 0 \<rparr> empty_writer
         [mk_node (op_other 1) 5, mk_node (op_other 1) 3]
       = Some (Inr \<lparr> position = 80,
            written =
              [\<lparr> at = 0, len = 40,
                  what = Model_header_item
                    \<lparr> flags = 2, constants = 4, main_mem = 0, nodes = 2, inputs = 0, outputs = 0 \<rparr> \<rparr>,
               \<lparr> at = 40, len = 0, what = Input_ranges_item [] \<rparr>,
               \<lparr> at = 40, len = 0, what = Input_shapes_item [] \<rparr>,
               \<lparr> at = 40, len = 0, what = Output_ranges_item [] \<rparr>,
               \<lparr> at = 40, len = 4, what = Constants_item \<rparr>,
               \<lparr> at = 60, len = 5,
                  what = Body_item \<lparr> body_opcode = op_other 1, body_bytes = replicate 5 0 \<rparr> \<rparr>,
               \<lparr> at = 65, len = 7, what = Zero_padding_item \<rparr>,
               \<lparr> at = 72, len = 3,
                  what = Body_item \<lparr> body_opcode = op_other 1, body_bytes = replicate 3 0 \<rparr> \<rparr>,
               \<lparr> at = 75, len = 5, what = Zero_padding_item \<rparr>,
               \<lparr> at = 44, len = 16,
                  what = Node_headers_item [\<lparr> opcode = op_other 1, body_size = 12 \<rparr>,
                                            \<lparr> opcode = op_other 1, body_size = 8 \<rparr>] \<rparr>,
               \<lparr> at = 60, len = 16,
                  what = Page_table_item
                    \<lparr> num_pages = 1, max_pages = 8, body_buffer_size = 20 \<rparr> \<rparr>,
               \<lparr> at = 76, len = 32,
                  what = Page_item
                    \<lparr> page_index = 0, page_type = persistent, page_begin = 0, page_end = 1,
                      offset_bytes = 0, size_bytes = 20 \<rparr> \<rparr>] \<rparr>)
   \<and> body_region_start example_sizes example_registry
         \<lparr> constant_usage = 4, memory_usage = 0 \<rparr> empty_writer
         [mk_node (op_other 1) 5, mk_node (op_other 1) 3] = 60
   \<and> gencode True example_sizes example_registry
         \<lparr> constant_usage = 4, memory_usage = 0 \<rparr> empty_writer
         [mk_node (op_other 1) 5, mk_node (op_other 1) 3]
       = gencode False example_sizes example_registry
           \<lparr> constant_usage = 4, memory_usage = 0 \<rparr> empty_writer
           [mk_node (op_other 1) 5, mk_node (op_other 1) 3]
   \<and> \<not> 8 dvd (72 - 60 :: nat)"
  by (simp add: gencode_eval)

text \<open>
  C8, amended. In a run of the body loop in which no emitter is missing, every body is
  written at the writer's position and followed by zero bytes up to the next position that
  is a multiple of 8 (fewer than 8 of them); the \<open>body_size\<close> of its node header is the
  span from the body's start to that position, cast to 32 bits; the first body starts
  where the writer stood, every later body starts where the padding of the one before it
  ended, which is a multiple of 8; and where the writer stood at a multiple of 8 at the
  start, every body starts at a multiple of 8 relative to that start.
\<close>

theorem bodies_padded_to_multiple_of_8:
  assumes "\<forall>n \<in> set rnodes. \<forall>e. call_emitter reg n ctx \<noteq> Inl e"
  shows "\<exists>w' new_headers.
           write_bodies reg ctx rnodes w hs = Inr (w', hs @ new_headers)
           \<and> (let bodies = emitted_bodies reg ctx rnodes;
                   spans = body_spans (position w) bodies
               in length new_headers = length bodies
                  \<and> written w' = written w @ concat (map2 body_and_padding bodies spans)
                  \<and> (\<forall>k < length bodies.
                        opcode (new_headers ! k) = body_opcode (bodies ! k)
                        \<and> body_size (new_headers ! k)
                            = of_nat (snd (spans ! k) - fst (spans ! k)))
                  \<and> (\<forall>k < length bodies.
                        snd (spans ! k)
                          = align_up 8 (fst (spans ! k) + length (body_bytes (bodies ! k)))
                        \<and> 8 dvd snd (spans ! k)
                        \<and> snd (spans ! k) - (fst (spans ! k) + length (body_bytes (bodies ! k))) < 8)
                  \<and> (bodies \<noteq> [] \<longrightarrow> fst (spans ! 0) = position w)
                  \<and> (\<forall>k. Suc k < length bodies \<longrightarrow> fst (spans ! Suc k) = snd (spans ! k))
                  \<and> (\<forall>k < length bodies. 0 < k \<longrightarrow> 8 dvd fst (spans ! k))
                  \<and> (8 dvd position w \<longrightarrow>
                        (\<forall>k < length bodies. 8 dvd (fst (spans ! k) - position w)))
                  \<and> position w' = (if bodies = [] then position w else snd (last spans)))"
proof -
  let ?B = "emitted_bodies reg ctx rnodes"
  let ?S = "body_spans (position w) ?B"
  let ?w' = "\<lparr> position = (if ?B = [] then position w else snd (last ?S)),
               written = written w @ concat (map2 body_and_padding ?B ?S) \<rparr>"
  let ?nh = "map2 header_of_span ?B ?S"
  have wb: "write_bodies reg ctx rnodes w hs = Inr (?w', hs @ ?nh)"
    by (rule write_bodies_closed[OF assms])
  have c2: "length ?nh = length ?B" by (simp add: length_body_spans)
  have c4: "\<forall>k < length ?B.
              opcode (?nh ! k) = body_opcode (?B ! k)
              \<and> body_size (?nh ! k) = of_nat (snd (?S ! k) - fst (?S ! k))"
    by (simp add: header_of_span_nth)
  have c5: "\<forall>k < length ?B.
              snd (?S ! k) = align_up 8 (fst (?S ! k) + length (body_bytes (?B ! k)))
              \<and> 8 dvd snd (?S ! k)
              \<and> snd (?S ! k) - (fst (?S ! k) + length (body_bytes (?B ! k))) < 8"
    by (simp add: body_spans_snd align_up_dvd align_up_less)
  have c6: "?B \<noteq> [] \<longrightarrow> fst (?S ! 0) = position w"
    by (simp add: body_spans_first)
  have c7: "\<forall>k. Suc k < length ?B \<longrightarrow> fst (?S ! Suc k) = snd (?S ! k)"
    by (simp add: body_spans_next)
  have c8: "\<forall>k < length ?B. 0 < k \<longrightarrow> 8 dvd fst (?S ! k)"
    by (simp add: body_spans_start_dvd)
  have c9: "8 dvd position w \<longrightarrow> (\<forall>k < length ?B. 8 dvd (fst (?S ! k) - position w))"
  proof (intro impI allI)
    fix k assume d: "8 dvd position w" and k: "k < length ?B"
    show "8 dvd (fst (?S ! k) - position w)"
    proof (cases k)
      case 0
      then show ?thesis using k c6 by auto
    next
      case (Suc j)
      then have "8 dvd fst (?S ! k)" using k c8 by simp
      then show ?thesis using d by (rule dvd_diff_nat)
    qed
  qed
  show ?thesis
    unfolding Let_def
    by (intro exI[of _ ?w'] exI[of _ ?nh] conjI) (rule wb c2 c4 c5 c6 c7 c8 c9 | simp)+
qed

theorem bodies_padded_to_multiple_of_8_witness:
  "write_bodies example_registry example_context two_body_nodes
         (empty_writer \<lparr> position := 60 \<rparr>) []
       = Inr (\<lparr> position = 80,
                 written =
                   [\<lparr> at = 60, len = 5,
                       what = Body_item \<lparr> body_opcode = op_other 1, body_bytes = replicate 5 0 \<rparr> \<rparr>,
                    \<lparr> at = 65, len = 7, what = Zero_padding_item \<rparr>,
                    \<lparr> at = 72, len = 3,
                       what = Body_item \<lparr> body_opcode = op_other 1, body_bytes = replicate 3 0 \<rparr> \<rparr>,
                    \<lparr> at = 75, len = 5, what = Zero_padding_item \<rparr>] \<rparr>,
              [\<lparr> opcode = op_other 1, body_size = 12 \<rparr>, \<lparr> opcode = op_other 1, body_size = 8 \<rparr>])
   \<and> (\<exists>w' new_headers.
           write_bodies example_registry example_context two_body_nodes (empty_writer \<lparr> position := 60 \<rparr>) [] = Inr (w', [] @ new_headers)
           \<and> (let bodies = emitted_bodies example_registry example_context two_body_nodes;
                   spans = body_spans (position (empty_writer \<lparr> position := 60 \<rparr>)) bodies
               in length new_headers = length bodies
                  \<and> written w' = written (empty_writer \<lparr> position := 60 \<rparr>) @ concat (map2 body_and_padding bodies spans)
                  \<and> (\<forall>k < length bodies.
                        opcode (new_headers ! k) = body_opcode (bodies ! k)
                        \<and> body_size (new_headers ! k)
                            = of_nat (snd (spans ! k) - fst (spans ! k)))
                  \<and> (\<forall>k < length bodies.
                        snd (spans ! k)
                          = align_up 8 (fst (spans ! k) + length (body_bytes (bodies ! k)))
                        \<and> 8 dvd snd (spans ! k)
                        \<and> snd (spans ! k) - (fst (spans ! k) + length (body_bytes (bodies ! k))) < 8)
                  \<and> (bodies \<noteq> [] \<longrightarrow> fst (spans ! 0) = position (empty_writer \<lparr> position := 60 \<rparr>))
                  \<and> (\<forall>k. Suc k < length bodies \<longrightarrow> fst (spans ! Suc k) = snd (spans ! k))
                  \<and> (\<forall>k < length bodies. 0 < k \<longrightarrow> 8 dvd fst (spans ! k))
                  \<and> (8 dvd position (empty_writer \<lparr> position := 60 \<rparr>) \<longrightarrow>
                        (\<forall>k < length bodies. 8 dvd (fst (spans ! k) - position (empty_writer \<lparr> position := 60 \<rparr>))))
                  \<and> position w' = (if bodies = [] then position (empty_writer \<lparr> position := 60 \<rparr>) else snd (last spans))))"
proof -
  have h: "\<forall>n \<in> set two_body_nodes. \<forall>e. call_emitter example_registry n example_context \<noteq> Inl e"
    by (simp add: two_body_nodes_def call_emitter_def example_registry_def mk_node_def)
  have ev: "write_bodies example_registry example_context two_body_nodes
         (empty_writer \<lparr> position := 60 \<rparr>) []
       = Inr (\<lparr> position = 80,
                 written =
                   [\<lparr> at = 60, len = 5,
                       what = Body_item \<lparr> body_opcode = op_other 1, body_bytes = replicate 5 0 \<rparr> \<rparr>,
                    \<lparr> at = 65, len = 7, what = Zero_padding_item \<rparr>,
                    \<lparr> at = 72, len = 3,
                       what = Body_item \<lparr> body_opcode = op_other 1, body_bytes = replicate 3 0 \<rparr> \<rparr>,
                    \<lparr> at = 75, len = 5, what = Zero_padding_item \<rparr>] \<rparr>,
              [\<lparr> opcode = op_other 1, body_size = 12 \<rparr>, \<lparr> opcode = op_other 1, body_size = 8 \<rparr>])"
    by (simp add: two_body_nodes_def call_emitter_def example_registry_def mk_node_def
          example_emitter_def empty_writer_def serialize_def write_bytes_def align_position_def
          Let_def)
  show ?thesis
    by (rule conjI[OF ev bodies_padded_to_multiple_of_8[OF h]])
qed

text \<open>
  C9. \<^verbatim>\<open>write_pages\<close> reads \<^verbatim>\<open>headers[0]\<close> before anything else: the out-of-range
  result is reached exactly on the empty header list. \<open>gencode\<close> calls it whatever the
  node headers are, so a compute sequence none of whose runtime nodes yields a body (the
  empty sequence among them) ends in that out-of-range read.
\<close>

theorem write_pages_needs_a_header:
  "(collect_pages headers = Some (Inl Index_out_of_range) \<longleftrightarrow> headers = [])
   \<and> (write_pages ndebug writer headers runtime_nodes = Some (Inl Index_out_of_range) \<longleftrightarrow> headers = [])
   \<and> ((\<forall>n \<in> set (runtime_nodes_of reg compute_sequence). call_emitter reg n ctx = Inr None)
        \<longrightarrow> gencode ndebug sz reg ctx writer compute_sequence = Some (Inl Index_out_of_range))"
proof -
  have a: "collect_pages headers = Some (Inl Index_out_of_range) \<longleftrightarrow> headers = []"
    using collect_pages_not_oob[of headers] by (auto simp add: collect_pages_def)
  have b: "write_pages ndebug writer headers runtime_nodes = Some (Inl Index_out_of_range) \<longleftrightarrow> headers = []"
  proof
    assume l: "write_pages ndebug writer headers runtime_nodes = Some (Inl Index_out_of_range)"
    show "headers = []"
    proof (rule ccontr)
      assume "headers \<noteq> []"
      then have "collect_pages headers \<noteq> Some (Inl Index_out_of_range)" by (rule collect_pages_not_oob)
      then show False using l
        by (auto simp add: write_pages_def plan_pages_def split: option.splits sum.splits if_splits)
    qed
  next
    assume "headers = []"
    then show "write_pages ndebug writer headers runtime_nodes = Some (Inl Index_out_of_range)"
      by (simp add: write_pages_def plan_pages_def collect_pages_def)
  qed
  have c: "(\<forall>n \<in> set (runtime_nodes_of reg compute_sequence). call_emitter reg n ctx = Inr None)
        \<longrightarrow> gencode ndebug sz reg ctx writer compute_sequence = Some (Inl Index_out_of_range)"
  proof
    assume all: "\<forall>n \<in> set (runtime_nodes_of reg compute_sequence). call_emitter reg n ctx = Inr None"
    then have ok: "\<forall>n \<in> set (runtime_nodes_of reg compute_sequence). \<forall>e. call_emitter reg n ctx \<noteq> Inl e"
      by simp
    have nb: "emitted_bodies reg ctx (runtime_nodes_of reg compute_sequence) = []"
      by (rule emitted_bodies_none[OF all])
    show "gencode ndebug sz reg ctx writer compute_sequence = Some (Inl Index_out_of_range)"
      unfolding gencode_unfold write_bodies_closed[OF ok] nb
      by (simp add: write_pages_def plan_pages_def collect_pages_def)
  qed
  show ?thesis using a b c by blast
qed

theorem write_pages_needs_a_header_witness:
  "call_emitter example_registry (mk_node (op_other 2) 7) example_context = Inr None
   \<and> runtime_nodes_of example_registry
         [mk_node op_input_node 0, mk_node (op_other 2) 7, mk_node op_output_node 0]
       = [mk_node (op_other 2) 7]
   \<and> gencode False example_sizes example_registry example_context empty_writer
         [mk_node op_input_node 0, mk_node (op_other 2) 7, mk_node op_output_node 0]
       = Some (Inl Index_out_of_range)
   \<and> gencode False example_sizes example_registry example_context empty_writer []
       = Some (Inl Index_out_of_range)"
proof -
  have r: "runtime_nodes_of example_registry
             [mk_node op_input_node 0, mk_node (op_other 2) 7, mk_node op_output_node 0]
           = [mk_node (op_other 2) 7]"
    by (simp add: runtime_nodes_of_def example_registry_def mk_node_def)
  have h: "\<forall>n \<in> set (runtime_nodes_of example_registry
                  [mk_node op_input_node 0, mk_node (op_other 2) 7, mk_node op_output_node 0]).
             call_emitter example_registry n example_context = Inr None"
    unfolding r by (simp add: call_emitter_def example_registry_def mk_node_def null_emitter_def)
  have h0: "\<forall>n \<in> set (runtime_nodes_of example_registry []).
             call_emitter example_registry n example_context = Inr None"
    by (simp add: runtime_nodes_of_def)
  have g: "gencode False example_sizes example_registry example_context empty_writer
         [mk_node op_input_node 0, mk_node (op_other 2) 7, mk_node op_output_node 0]
       = Some (Inl Index_out_of_range)"
    using write_pages_needs_a_header[where ndebug = False and reg = example_registry and ctx = example_context
        and compute_sequence = "[mk_node op_input_node 0, mk_node (op_other 2) 7, mk_node op_output_node 0]"
        and sz = example_sizes and writer = empty_writer and headers = "[]" and runtime_nodes = "[]"] h
    by blast
  have g0: "gencode False example_sizes example_registry example_context empty_writer []
       = Some (Inl Index_out_of_range)"
    using write_pages_needs_a_header[where ndebug = False and reg = example_registry and ctx = example_context
        and compute_sequence = "[]"
        and sz = example_sizes and writer = empty_writer and headers = "[]" and runtime_nodes = "[]"] h0
    by blast
  have e: "call_emitter example_registry (mk_node (op_other 2) 7) example_context = Inr None"
    using h unfolding r by simp
  show ?thesis by (rule conjI[OF e conjI[OF r conjI[OF g g0]]])
qed

text \<open>
  C10. Whatever the compute sequence, the model header \<open>gencode\<close> writes first has the
  paging bit set, and every run that gets past the body loop calls \<^verbatim>\<open>write_pages\<close> on
  the node headers: \<open>gencode\<close> has no branch that leaves the page table out.
\<close>

theorem paging_always_enabled:
  "flags (make_model_header reg ctx compute_sequence) AND KM_NODE_PAGING = KM_NODE_PAGING
   \<and> KM_NODE_PAGING \<noteq> 0
   \<and> (\<exists>es. written (write_prologue sz reg ctx writer compute_sequence)
              = written writer
                @ \<lparr> at = position writer, len = sizeof_model_header sz,
                    what = Model_header_item (make_model_header reg ctx compute_sequence) \<rparr>
                # es)
   \<and> gencode ndebug sz reg ctx writer compute_sequence
       = (case write_bodies reg ctx (runtime_nodes_of reg compute_sequence)
                 (set_position (body_region_start sz reg ctx writer compute_sequence)
                    (write_prologue sz reg ctx writer compute_sequence)) []
          of Inl e \<Rightarrow> Some (Inl e)
           | Inr (w, node_headers) \<Rightarrow>
               (case write_pages ndebug
                       (write_bytes (sizeof_node_header sz * length node_headers)
                          (Node_headers_item node_headers)
                          (set_position (node_headers_pos_of sz reg ctx writer compute_sequence) w))
                       node_headers (runtime_nodes_of reg compute_sequence)
                of None \<Rightarrow> None
                 | Some (Inl e) \<Rightarrow> Some (Inl e)
                 | Some (Inr w') \<Rightarrow> Some (Inr (set_position (position w) w'))))"
proof -
  have a: "\<exists>es. written (write_prologue sz reg ctx writer compute_sequence)
              = written writer
                @ \<lparr> at = position writer, len = sizeof_model_header sz,
                    what = Model_header_item (make_model_header reg ctx compute_sequence) \<rparr>
                # es"
    by (simp add: write_prologue_def write_bytes_def Let_def)
  show ?thesis
    by (intro conjI) (rule paging_flag_set a gencode_unfold)+
qed

end
